theory Spec2Isabelle
  imports Complex_Main "HOL-Library.Multiset"
begin

section \<open>Strings\<close>

text \<open>
  A JavaScript string is modelled as a \<open>string\<close>, one \<open>char\<close> per code unit, so the
  model covers texts whose code units lie in the range 0..255 (Latin-1). On that range
  the regular-expression class \<open>\s\<close> and the characters removed by \<open>trim\<close> coincide:
  tab, line feed, vertical tab, form feed, carriage return, space and no-break space.
\<close>

definition isSpace :: "char \<Rightarrow> bool" where
  "isSpace c = (c \<in> set [CHR 0x09, CHR 0x0A, CHR 0x0B, CHR 0x0C, CHR 0x0D, CHR 0x20, CHR 0xA0])"

text \<open>The class \<open>\w\<close>: ASCII letters, digits and the underscore.\<close>

definition wordChars :: "char list" where
  "wordChars = ''abcdefghijklmnopqrstuvwxyzABCDEFGHIJKLMNOPQRSTUVWXYZ0123456789_''"

definition isWordChar :: "char \<Rightarrow> bool" where
  "isWordChar c = (c \<in> set wordChars)"

definition isDigit :: "char \<Rightarrow> bool" where
  "isDigit c = (c \<in> set ''0123456789'')"

text \<open>
  \<open>toLowerCase\<close> on the Latin-1 range: \<open>A\<close>..\<open>Z\<close> and the accented capitals
  0xC0..0xDE (without the multiplication sign 0xD7) are replaced by the character 32
  code units above; every other character is kept.
\<close>

definition upperChars :: "char list" where
  "upperChars = ''ABCDEFGHIJKLMNOPQRSTUVWXYZ'' @
     [CHR 0xC0, CHR 0xC1, CHR 0xC2, CHR 0xC3, CHR 0xC4, CHR 0xC5, CHR 0xC6, CHR 0xC7,
      CHR 0xC8, CHR 0xC9, CHR 0xCA, CHR 0xCB, CHR 0xCC, CHR 0xCD, CHR 0xCE, CHR 0xCF,
      CHR 0xD0, CHR 0xD1, CHR 0xD2, CHR 0xD3, CHR 0xD4, CHR 0xD5, CHR 0xD6, CHR 0xD8,
      CHR 0xD9, CHR 0xDA, CHR 0xDB, CHR 0xDC, CHR 0xDD, CHR 0xDE]"

definition lowerChars :: "char list" where
  "lowerChars = ''abcdefghijklmnopqrstuvwxyz'' @
     [CHR 0xE0, CHR 0xE1, CHR 0xE2, CHR 0xE3, CHR 0xE4, CHR 0xE5, CHR 0xE6, CHR 0xE7,
      CHR 0xE8, CHR 0xE9, CHR 0xEA, CHR 0xEB, CHR 0xEC, CHR 0xED, CHR 0xEE, CHR 0xEF,
      CHR 0xF0, CHR 0xF1, CHR 0xF2, CHR 0xF3, CHR 0xF4, CHR 0xF5, CHR 0xF6, CHR 0xF8,
      CHR 0xF9, CHR 0xFA, CHR 0xFB, CHR 0xFC, CHR 0xFD, CHR 0xFE]"

definition lowerChar :: "char \<Rightarrow> char" where
  "lowerChar c = (case map_of (zip upperChars lowerChars) c of Some d \<Rightarrow> d | None \<Rightarrow> c)"

definition toLowerCase :: "string \<Rightarrow> string" where
  "toLowerCase s = map lowerChar s"

definition trim :: "string \<Rightarrow> string" where
  "trim s = rev (dropWhile isSpace (rev (dropWhile isSpace s)))"

text \<open>
  \<open>s.split(/[...]+/)\<close> for a character class \<open>P\<close>: the pieces between the maximal
  non-empty runs of characters in \<open>P\<close>. A run at the start or at the end of the string
  leaves an empty piece there, and the empty string splits into one empty piece.
\<close>

fun splitOn :: "(char \<Rightarrow> bool) \<Rightarrow> string \<Rightarrow> string list" where
  "splitOn P [] = [[]]"
| "splitOn P (c # cs) =
     (if P c then (if cs \<noteq> [] \<and> P (hd cs) then splitOn P cs else [] # splitOn P cs)
      else (case splitOn P cs of [] \<Rightarrow> [[c]] | w # ws \<Rightarrow> (c # w) # ws))"

text \<open>\<open>xs.join(sep)\<close>.\<close>

fun join :: "string \<Rightarrow> string list \<Rightarrow> string" where
  "join sep [] = []"
| "join sep [x] = x"
| "join sep (x # y # ys) = x @ sep @ join sep (y # ys)"

fun startsWith :: "string \<Rightarrow> string \<Rightarrow> bool" where
  "startsWith s [] = True"
| "startsWith [] (t # ts) = False"
| "startsWith (c # cs) (t # ts) = (c = t \<and> startsWith cs ts)"

text \<open>\<open>s.includes(t)\<close>: \<open>t\<close> occurs in \<open>s\<close> as a contiguous substring.\<close>

fun includesStr :: "string \<Rightarrow> string \<Rightarrow> bool" where
  "includesStr [] t = (t = [])"
| "includesStr (c # cs) t = (startsWith (c # cs) t \<or> includesStr cs t)"

text \<open>\<open>xs.indexOf(x)\<close>: the first position of \<open>x\<close>, or \<open>-1\<close>.\<close>

fun indexOf :: "'a list \<Rightarrow> 'a \<Rightarrow> int" where
  "indexOf [] x = -1"
| "indexOf (y # ys) x = (if y = x then 0 else (let r = indexOf ys x in if r < 0 then -1 else r + 1))"

section \<open>Sentences\<close>

definition isDelim :: "char \<Rightarrow> bool" where
  "isDelim c = (c \<in> set ''.!?'')"

text \<open>
  \<open>text.split(/[.!?]+/).filter(s => s.trim().length > 0)\<close>, the first statement of
  \<open>generateSummary\<close>, \<open>generateMCQs\<close> and \<open>generateQnA\<close>. The filter tests the trimmed
  piece and keeps the piece itself.
\<close>

definition sentencesOf :: "string \<Rightarrow> string list" where
  "sentencesOf text = filter (\<lambda>s. length (trim s) > 0) (splitOn isDelim text)"

text \<open>
  Putting a split text together again: the pieces in order, with one separating run
  between each two neighbours.
\<close>

fun rejoin :: "string list \<Rightarrow> string list \<Rightarrow> string" where
  "rejoin [] runs = []"
| "rejoin (p # ps) [] = p"
| "rejoin (p # ps) (r # rs) = p @ r @ rejoin ps rs"

text \<open>\<open>s.split(d)\<close> for a one-character separator: a piece ends at every occurrence.\<close>

fun splitChar :: "char \<Rightarrow> string \<Rightarrow> string list" where
  "splitChar d [] = [[]]"
| "splitChar d (c # cs) =
     (if c = d then [] # splitChar d cs
      else (case splitChar d cs of [] \<Rightarrow> [[c]] | w # ws \<Rightarrow> (c # w) # ws))"

section \<open>Plain objects used as dictionaries\<close>

text \<open>
  An object literal filled by assignments is an association list of its own properties
  in creation order. Assigning to an existing key keeps its place. \<open>Object.keys\<close>,
  \<open>Object.entries\<close> and object spread enumerate the keys that are array indices
  (decimal numerals without leading zero, below \<open>2^32 - 1\<close>) first, in ascending numeric
  order, and then the other keys in creation order.
\<close>

type_synonym 'v obj = "(string \<times> 'v) list"

fun objSet :: "string \<Rightarrow> 'v \<Rightarrow> 'v obj \<Rightarrow> 'v obj" where
  "objSet k v [] = [(k, v)]"
| "objSet k v ((k', v') # rest) =
     (if k' = k then (k, v) # rest else (k', v') # objSet k v rest)"

definition digitVal :: "char \<Rightarrow> nat" where
  "digitVal c =
     (case map_of (zip ''0123456789'' [0, 1, 2, 3, 4, 5, 6, 7, 8, 9]) c of
        Some d \<Rightarrow> d | None \<Rightarrow> 0)"

definition decimal :: "string \<Rightarrow> nat" where
  "decimal k = foldl (\<lambda>n c. 10 * n + digitVal c) 0 k"

definition isArrayIndex :: "string \<Rightarrow> bool" where
  "isArrayIndex k =
     (k \<noteq> [] \<and> list_all isDigit k \<and> (length k = 1 \<or> hd k \<noteq> CHR ''0'')
      \<and> decimal k < 4294967295)"

definition objEntries :: "'v obj \<Rightarrow> (string \<times> 'v) list" where
  "objEntries ob =
     sort_key (\<lambda>e. decimal (fst e)) (filter (\<lambda>e. isArrayIndex (fst e)) ob)
     @ filter (\<lambda>e. \<not> isArrayIndex (fst e)) ob"

definition objKeys :: "'v obj \<Rightarrow> string list" where
  "objKeys ob = map fst (objEntries ob)"

text \<open>\<open>{...a, ...b}\<close>: the entries of \<open>a\<close>, then those of \<open>b\<close>, assigned to a fresh object.\<close>

definition spread :: "'v obj \<Rightarrow> 'v obj \<Rightarrow> 'v obj" where
  "spread a b = foldl (\<lambda>ob (k, v). objSet k v ob) [] (objEntries a @ objEntries b)"

section \<open>Key terms\<close>

definition stopWords :: "string list" where
  "stopWords =
     [''the'', ''a'', ''an'', ''and'', ''or'', ''but'', ''is'', ''in'', ''it'', ''to'', ''i'', ''that'', ''had'',
      ''on'', ''for'', ''were'', ''was'', ''of'', ''be'', ''this'', ''with'', ''by'', ''as'', ''at'', ''from'',
      ''they'', ''are'', ''have'', ''has'', ''been'', ''not'', ''their'', ''there'', ''which'', ''when'', ''who'',
      ''what'', ''where'', ''why'', ''how'', ''all'', ''any'', ''both'', ''each'', ''few'', ''more'', ''most'',
      ''some'', ''such'', ''than'', ''too'', ''very'', ''can'', ''will'', ''just'', ''should'', ''now'']"

text \<open>\<open>text.toLowerCase().replace(/[^\w\s]/g, '')\<close>.\<close>

definition cleanText :: "string \<Rightarrow> string" where
  "cleanText text = filter (\<lambda>c. isWordChar c \<or> isSpace c) (toLowerCase text)"

text \<open>\<open>cleanText.split(/\s+/).filter(word => word.length > 0)\<close>.\<close>

definition wordsOf :: "string \<Rightarrow> string list" where
  "wordsOf text = filter (\<lambda>word. length word > 0) (splitOn isSpace (cleanText text))"

text \<open>
  The value of a counter property is a number, or a string that is no numeral. The
  lookup \<open>counts[k]\<close> also sees the properties every object inherits from
  \<open>Object.prototype\<close>. Of their names only \<open>constructor\<close> and \<open>__proto__\<close> are spelled
  in lower case and without a space, so only these can be a word of the cleaned text
  (and none can be a phrase).
  \<^item> For \<open>constructor\<close> the first lookup finds the inherited function, which is
    truthy; adding a number to it concatenates strings, so the property is created with
    a string, and every later update appends to that string.
  \<^item> For \<open>__proto__\<close> the statement reads the prototype object, appends \<open>1\<close> to its
    string form and assigns the string to \<open>__proto__\<close>, which ignores values that are
    not objects: no property is created, the word is not counted (see \<open>countWord\<close>).
\<close>

datatype count = Number nat | NonNumeric

definition inheritedKeys :: "string list" where
  "inheritedKeys = [''constructor'', ''__proto__'']"

text \<open>\<open>counts[k] = (counts[k] || 0) + d\<close>, for a key other than \<open>__proto__\<close>.\<close>

definition bump :: "string \<Rightarrow> nat \<Rightarrow> count obj \<Rightarrow> count obj" where
  "bump k d counts =
     objSet k
       (case map_of counts k of
          Some (Number n) \<Rightarrow> Number (n + d)
        | Some NonNumeric \<Rightarrow> NonNumeric
        | None \<Rightarrow> if k = ''constructor'' then NonNumeric else Number d)
       counts"

text \<open>The callback of \<open>words.forEach\<close> and the loop.\<close>

definition countWord :: "count obj \<Rightarrow> string \<Rightarrow> count obj" where
  "countWord wordCounts word =
     (if word \<notin> set stopWords \<and> length word > 3
      then (if word = ''__proto__'' then wordCounts else bump word 1 wordCounts)
      else wordCounts)"

definition countWords :: "string list \<Rightarrow> count obj" where
  "countWords ws = foldl countWord [] ws"

text \<open>
  The loop over \<open>i = 0 .. words.length - 2\<close>; the argument list is \<open>words\<close> from
  position \<open>i\<close> on, so \<open>a\<close>, \<open>b\<close>, \<open>c\<close> are \<open>words[i]\<close>, \<open>words[i+1]\<close>, \<open>words[i+2]\<close>.
\<close>

fun findPhrases :: "string list \<Rightarrow> count obj \<Rightarrow> count obj" where
  "findPhrases (a # b # rest) phrases =
     (let phrases1 =
            (if length a > 3 \<and> length b > 3 \<and> a \<notin> set stopWords \<and> b \<notin> set stopWords
             then bump (a @ '' '' @ b) 1 phrases else phrases);
          phrases2 =
            (case rest of
               [] \<Rightarrow> phrases1
             | c # _ \<Rightarrow>
                 if length a > 3 \<and> length b > 3 \<and> length c > 3
                    \<and> a \<notin> set stopWords \<and> c \<notin> set stopWords
                 then bump (a @ '' '' @ b @ '' '' @ c) 3 phrases1 else phrases1)
      in findPhrases (b # rest) phrases2)"
| "findPhrases ws phrases = phrases"

text \<open>
  The comparator \<open>(a, b) => b[1] - a[1]\<close>. The subtraction converts a string that is no
  numeral to \<open>NaN\<close>, the difference is \<open>NaN\<close>, and \<open>Array.prototype.sort\<close> takes a
  comparator result \<open>NaN\<close> as \<open>+0\<close>.
\<close>

definition byCountDesc :: "string \<times> count \<Rightarrow> string \<times> count \<Rightarrow> int" where
  "byCountDesc a b =
     (case (snd a, snd b) of (Number m, Number n) \<Rightarrow> int n - int m | _ \<Rightarrow> 0)"

text \<open>
  \<open>xs.sort(cmp)\<close> as the stable insertion sort driven by the comparator: an element goes
  before the first element of the sorted rest that it does not have to follow. For a
  consistent comparator this is the order every stable sort returns. With a
  \<open>NonNumeric\<close> count among the entries the comparator is not consistent and the
  language leaves the order to the engine; the model then has the order of this
  insertion sort, in which an entry that compares as equal to all others stays in front
  of the entries that followed it.
\<close>

fun insertBy :: "('a \<Rightarrow> 'a \<Rightarrow> int) \<Rightarrow> 'a \<Rightarrow> 'a list \<Rightarrow> 'a list" where
  "insertBy cmp x [] = [x]"
| "insertBy cmp x (y # ys) = (if cmp x y \<le> 0 then x # y # ys else y # insertBy cmp x ys)"

definition sortBy :: "('a \<Rightarrow> 'a \<Rightarrow> int) \<Rightarrow> 'a list \<Rightarrow> 'a list" where
  "sortBy cmp xs = foldr (insertBy cmp) xs []"

definition sortByCountDesc :: "(string \<times> count) list \<Rightarrow> (string \<times> count) list" where
  "sortByCountDesc es = sortBy byCountDesc es"

text \<open>The number held by an entry, for stating the order of numeric entries.\<close>

definition countOf :: "string \<times> count \<Rightarrow> int" where
  "countOf e = (case snd e of Number n \<Rightarrow> int n | NonNumeric \<Rightarrow> 0)"

definition extractKeyTerms :: "string \<Rightarrow> string list" where
  "extractKeyTerms text =
     (let ws = wordsOf text;
          wordCounts = countWords ws;
          phrases = findPhrases ws [];
          combined = spread wordCounts phrases
      in map fst (take 20 (sortByCountDesc (objEntries combined))))"

section \<open>Summary\<close>

text \<open>
  \<open>generateSummary\<close> has one parameter, the text. The \<open>keyTerms\<close> it reads is the state
  variable of the component, as it was when the component was last rendered; it is the
  first argument here. The comparisons with \<open>sentences.length * 0.1\<close> and
  \<open>sentences.length * 0.8\<close> and all scores are computed in doubles in the source; for
  whole numbers \<open>i\<close> and \<open>n\<close> the rounded products decide \<open>i < n * 0.1\<close> and
  \<open>i > n * 0.8\<close> as the exact ones do, and the scores are exact, so rationals are used.
\<close>

definition positionScore :: "nat \<Rightarrow> nat \<Rightarrow> rat" where
  "positionScore n index =
     (if index < 3 then 3
      else if of_nat index < of_nat n * (1 / 10 :: rat) then 2
      else if of_nat index > of_nat n * (8 / 10 :: rat) then 3 / 2
      else 1)"

definition termScore :: "string list \<Rightarrow> string \<Rightarrow> nat" where
  "termScore keyTerms sentence =
     foldl (\<lambda>score term. if includesStr (toLowerCase sentence) term then score + 1 else score)
       0 keyTerms"

definition combinedScores :: "string list \<Rightarrow> string list \<Rightarrow> rat list" where
  "combinedScores keyTerms sentences =
     map (\<lambda>index. positionScore (length sentences) index
                   * (of_nat (termScore keyTerms (sentences ! index)) + 1))
       [0..<length sentences]"

definition summaryLength :: "nat \<Rightarrow> nat" where
  "summaryLength n = max (nat \<lceil>of_nat n * (1 / 4 :: rat)\<rceil>) 3"

text \<open>
  The chain \<open>combinedScores.map((score, index) => ({ score, index }))
  .sort((a, b) => b.score - a.score).slice(0, summaryLength).map(item => item.index)
  .sort((a, b) => a - b)\<close>. The first sort is descending by score and stable.
\<close>

definition topIndexes :: "nat \<Rightarrow> rat list \<Rightarrow> nat list" where
  "topIndexes k scores =
     sort (map snd
       (take k (sort_key (\<lambda>(score, index). - score) (zip scores [0..<length scores]))))"

definition generateSummary :: "string list \<Rightarrow> string \<Rightarrow> string" where
  "generateSummary keyTerms text =
     (let sentences = sentencesOf text
      in if length sentences \<le> 3 then join ''. '' sentences @ ''.''
         else join ''. ''
                (map (\<lambda>index. sentences ! index)
                   (topIndexes (summaryLength (length sentences))
                      (combinedScores keyTerms sentences))) @ ''.'')"

section \<open>Multiple-choice questions\<close>

record MCQItem =
  mcq_id :: nat
  mcq_question :: string
  options :: "string list"
  correctAnswer :: int
  ctx :: string

text \<open>\<open>sentence.toLowerCase().includes(term.toLowerCase())\<close>.\<close>

definition mentions :: "string \<Rightarrow> string \<Rightarrow> bool" where
  "mentions term sentence = includesStr (toLowerCase sentence) (toLowerCase term)"

text \<open>
  The object \<open>termSentences\<close> is filled by the first \<open>forEach\<close>; \<open>addTerm\<close> is its
  callback. Assigning an array to the key \<open>__proto__\<close> replaces the prototype of the
  object and creates no property, so that term never becomes a key.
\<close>

definition addTerm :: "string list \<Rightarrow> (string list) obj \<Rightarrow> string \<Rightarrow> (string list) obj" where
  "addTerm sentences ob term =
     (let matchingSentences = filter (mentions term) sentences
      in if length matchingSentences > 0
         then (if term = ''__proto__'' then ob else objSet term matchingSentences ob)
         else ob)"

definition termSentences :: "string list \<Rightarrow> string list \<Rightarrow> (string list) obj" where
  "termSentences sentences keyTerms = foldl (addTerm sentences) [] keyTerms"

definition selectedTerms :: "string list \<Rightarrow> string list \<Rightarrow> string list" where
  "selectedTerms sentences keyTerms =
     take (min (length keyTerms) 10) (objKeys (termSentences sentences keyTerms))"

text \<open>
  \<open>relatedSentences[0]\<close>: every value stored in \<open>termSentences\<close> is a non-empty array
  (lemma \<open>termSentences_nonempty\<close> below), so the head exists for every selected term.
\<close>

definition targetSentence :: "string list \<Rightarrow> string list \<Rightarrow> string \<Rightarrow> string" where
  "targetSentence sentences keyTerms term =
     (case map_of (termSentences sentences keyTerms) term of
        Some relatedSentences \<Rightarrow> hd relatedSentences
      | None \<Rightarrow> [])"

definition contextOf :: "string list \<Rightarrow> string \<Rightarrow> string" where
  "contextOf sentences target =
     (let sentenceIndex = indexOf sentences target
      in if sentenceIndex > 0 \<and> sentenceIndex < int (length sentences) - 1
         then sentences ! nat (sentenceIndex - 1) @ ''. '' @ target @ ''. ''
              @ sentences ! nat (sentenceIndex + 1)
         else target)"

definition questionFor :: "string \<Rightarrow> string" where
  "questionFor term =
     (if length (splitChar CHR '' '' term) > 1
      then ''Which of the following best describes '' @ [CHR 0x22] @ term @ [CHR 0x22]
           @ '' as mentioned in the document?''
      else ''According to the document, what is true about '' @ term @ ''?'')"

definition optionsFor :: "string \<Rightarrow> string \<Rightarrow> string list" where
  "optionsFor term target =
     (if length (splitChar CHR '' '' term) > 1
      then [trim target,
            term @ '' refers to an unrelated concept not covered in this document.'',
            term @ '' is a contradictory element in the document.'',
            term @ '' is mentioned but not significant to the main topic.'']
      else [trim target,
            term @ '' is not relevant to the main subject of this document.'',
            term @ '' represents an opposing viewpoint to the document'' @ [CHR 0x27]
              @ ''s main argument.'',
            term @ '' is a minor concept that appears only once in the document.''])"

text \<open>
  \<open>_.shuffle\<close> is a parameter: \<open>shuffle i xs\<close> is the array returned by the call made
  for the question at position \<open>i\<close>.
\<close>

definition makeMCQ :: "(nat \<Rightarrow> string list \<Rightarrow> string list) \<Rightarrow> string list \<Rightarrow> string list
    \<Rightarrow> nat \<Rightarrow> string \<Rightarrow> MCQItem" where
  "makeMCQ shuffle sentences keyTerms index term =
     (let target = targetSentence sentences keyTerms term;
          opts = optionsFor term target;
          shuffledOptions = shuffle index opts;
          newCorrectIndex = indexOf shuffledOptions (opts ! 0)
      in \<lparr> mcq_id = index + 1, mcq_question = questionFor term, options = shuffledOptions,
           correctAnswer = newCorrectIndex, ctx = contextOf sentences target \<rparr>)"

definition generateMCQs :: "(nat \<Rightarrow> string list \<Rightarrow> string list) \<Rightarrow> string \<Rightarrow> string list
    \<Rightarrow> MCQItem list" where
  "generateMCQs shuffle text keyTerms =
     (let sentences = sentencesOf text;
          selected = selectedTerms sentences keyTerms
      in map (\<lambda>index. makeMCQ shuffle sentences keyTerms index (selected ! index))
           [0..<length selected])"

text \<open>
  A sample shuffle for concrete evaluations: the reversal, which is a permutation.
\<close>

definition revShuffle :: "nat \<Rightarrow> string list \<Rightarrow> string list" where
  "revShuffle i xs = rev xs"

text \<open>A second sample shuffle: the identity.\<close>

definition keepShuffle :: "nat \<Rightarrow> string list \<Rightarrow> string list" where
  "keepShuffle i xs = xs"

text \<open>
  The specification's count for the number of questions: the key terms that have at least
  one matching sentence.
\<close>

definition termsWithMatches :: "string list \<Rightarrow> string list \<Rightarrow> string list" where
  "termsWithMatches sentences kts = filter (\<lambda>term. list_ex (mentions term) sentences) kts"

text \<open>
  A property of objects used in the proofs: the keys are pairwise different and
  \<open>__proto__\<close> is not among them.
\<close>

definition wellKeyed :: "'v obj \<Rightarrow> bool" where
  "wellKeyed ob = (distinct (map fst ob) \<and> ''__proto__'' \<notin> fst ` set ob)"

section \<open>Questions and answers\<close>

record QnAItem =
  qna_id :: nat
  qna_question :: string
  answer :: string

text \<open>The loop that groups the sentences; \<open>cur\<close> is \<open>currentParagraph\<close>.\<close>

fun groupParagraphs :: "string list \<Rightarrow> string list list \<Rightarrow> string list \<Rightarrow> string list list" where
  "groupParagraphs [] paragraphs cur =
     (if length cur > 0 then paragraphs @ [cur] else paragraphs)"
| "groupParagraphs (sentence # rest) paragraphs cur =
     (let cur1 = cur @ [sentence]
      in if includesStr sentence [CHR 0x0A] \<or> length sentence < 20
         then (if length cur1 > 0 then groupParagraphs rest (paragraphs @ [cur1]) []
               else groupParagraphs rest paragraphs cur1)
         else groupParagraphs rest paragraphs cur1)"

definition questionVariants :: "string \<Rightarrow> string list" where
  "questionVariants term =
     [''What is explained about '' @ term @ '' in the document?'',
      ''How does the document describe '' @ term @ ''?'',
      ''What information does the document provide about '' @ term @ ''?'',
      ''What role does '' @ term @ '' play according to the text?'']"

text \<open>
  The \<open>forEach\<close> over \<open>keyTerms.slice(0, 8)\<close>; \<open>termIndex\<close> counts every term of the
  slice, also the ones that produce no item.
\<close>

fun termItems :: "string list list \<Rightarrow> nat \<Rightarrow> string list \<Rightarrow> QnAItem list \<Rightarrow> QnAItem list" where
  "termItems paragraphs termIndex [] result = result"
| "termItems paragraphs termIndex (term # rest) result =
     (case filter (\<lambda>para. list_ex (mentions term) para) paragraphs of
        [] \<Rightarrow> termItems paragraphs (termIndex + 1) rest result
      | paragraph # _ \<Rightarrow>
          termItems paragraphs (termIndex + 1) rest
            (result @ [\<lparr> qna_id = termIndex + 1,
                         qna_question = questionVariants term ! (termIndex mod 4),
                         answer = trim (join '' '' paragraph) \<rparr>]))"

definition mainTopicQuestion :: string where
  "mainTopicQuestion = ''What is the main topic of this document?''"

definition conclusionQuestion :: string where
  "conclusionQuestion = ''What conclusion can be drawn from this document?''"

definition generateQnA :: "string \<Rightarrow> string list \<Rightarrow> QnAItem list" where
  "generateQnA text keyTerms =
     (let sentences = sentencesOf text;
          paragraphs = groupParagraphs sentences [] [];
          result = termItems paragraphs 0 (take 8 keyTerms) []
      in if length sentences > 5
         then (let result1 = result @ [\<lparr> qna_id = length result + 1,
                                         qna_question = mainTopicQuestion,
                                         answer = join '' '' (take 3 sentences) \<rparr>]
               in if length sentences > 10
                  then result1 @ [\<lparr> qna_id = length result1 + 1,
                                   qna_question = conclusionQuestion,
                                   answer = join '' '' (drop (length sentences - 3) sentences) \<rparr>]
                  else result1)
         else result)"

section \<open>Component state\<close>

text \<open>
  The state variables of the component that the upload handler and the pipeline write.
  The presentation-only variables (progress percentage driven by a timer, analysis
  status, document title, active tab) are left out. \<open>fileState\<close> is the variable
  \<open>file\<close>, of which the MIME type is kept.
\<close>

record AppState =
  fileState :: "string option"
  isLoading :: bool
  summary :: string
  mcqs :: "MCQItem list"
  qna :: "QnAItem list"
  errorMessage :: string
  processingStage :: string
  keyTerms :: "string list"

definition initialState :: AppState where
  "initialState = \<lparr> fileState = None, isLoading = False, summary = [], mcqs = [], qna = [],
                     errorMessage = [], processingStage = [], keyTerms = [] \<rparr>"

text \<open>
  \<open>processDocument\<close>. Its closure was created by a render of the component;
  \<open>renderedKeyTerms\<close> is the value the state variable \<open>keyTerms\<close> had in that render, and
  it is what \<open>generateSummary\<close> reads: \<open>setKeyTerms(terms)\<close> changes the state for the
  next render only. \<open>generateMCQs\<close> and \<open>generateQnA\<close> are passed \<open>terms\<close>.
\<close>

definition processDocument :: "(nat \<Rightarrow> string list \<Rightarrow> string list) \<Rightarrow> string list \<Rightarrow> AppState
    \<Rightarrow> string \<Rightarrow> AppState" where
  "processDocument shuffle renderedKeyTerms st text =
     (let terms = extractKeyTerms text;
          summaryText = generateSummary renderedKeyTerms text;
          generatedMcqs = generateMCQs shuffle text terms;
          generatedQna = generateQnA text terms
      in st\<lparr> keyTerms := terms, summary := summaryText, mcqs := generatedMcqs,
              qna := generatedQna, isLoading := False, processingStage := [] \<rparr>)"





section \<open>Sentence splitting\<close>

lemma splitOn_nonempty: "splitOn P s \<noteq> []"
  by (induction s) (auto split: list.splits)

lemma splitOn_pieces: "w \<in> set (splitOn P s) \<Longrightarrow> c \<in> set w \<Longrightarrow> \<not> P c"
proof (induction s arbitrary: w)
  case Nil
  then show ?case by simp
next
  case (Cons a s)
  show ?case
  proof (cases "P a")
    case True
    with Cons show ?thesis by (auto split: if_splits)
  next
    case False
    obtain v vs where vs: "splitOn P s = v # vs"
      using splitOn_nonempty [of P s] by (cases "splitOn P s") auto
    with False Cons.prems have "w = a # v \<or> w \<in> set vs" by auto
    then show ?thesis
    proof
      assume "w = a # v"
      with Cons.prems(2) have "c = a \<or> c \<in> set v" by auto
      then show ?thesis using False Cons.IH [of v] vs by auto
    next
      assume "w \<in> set vs"
      then show ?thesis using Cons.IH [of w] vs Cons.prems(2) by auto
    qed
  qed
qed

lemma concat_splitOn: "concat (splitOn P s) = filter (\<lambda>c. \<not> P c) s"
proof (induction s)
  case Nil
  then show ?case by simp
next
  case (Cons a s)
  obtain v vs where vs: "splitOn P s = v # vs"
    using splitOn_nonempty [of P s] by (cases "splitOn P s") auto
  with Cons show ?case by auto
qed

lemma rejoin_Cons_hd: "rejoin ((c # w) # ws) rs = c # rejoin (w # ws) rs"
  by (cases rs) simp_all

lemma splitOn_starts_delim:
  "s \<noteq> [] \<Longrightarrow> P (hd s) \<Longrightarrow> \<exists>ps. splitOn P s = [] # ps \<and> ps \<noteq> []"
proof (induction s)
  case Nil
  then show ?case by simp
next
  case (Cons d cs)
  then have d: "P d" by simp
  show ?case
  proof (cases "cs \<noteq> [] \<and> P (hd cs)")
    case True
    with Cons.IH d show ?thesis by simp
  next
    case False
    with d have "splitOn P (d # cs) = [] # splitOn P cs" by auto
    then show ?thesis using splitOn_nonempty [of P cs] by simp
  qed
qed

lemma splitOn_starts_other:
  "s \<noteq> [] \<Longrightarrow> \<not> P (hd s) \<Longrightarrow> hd (splitOn P s) \<noteq> []"
proof (cases s)
  case Nil
  assume "s \<noteq> []"
  with Nil show ?thesis by simp
next
  case (Cons c cs)
  assume "\<not> P (hd s)"
  with Cons have c: "\<not> P c" by simp
  obtain w ws where "splitOn P cs = w # ws"
    using splitOn_nonempty [of P cs] by (cases "splitOn P cs") auto
  with c Cons show ?thesis by simp
qed

lemma splitOn_rejoin:
  "\<exists>runs. length runs + 1 = length (splitOn P s)
      \<and> (\<forall>r \<in> set runs. r \<noteq> [] \<and> (\<forall>c \<in> set r. P c))
      \<and> rejoin (splitOn P s) runs = s"
proof (induction s)
  case Nil
  have "length ([] :: string list) + 1 = length (splitOn P [])
      \<and> (\<forall>r \<in> set ([] :: string list). r \<noteq> [] \<and> (\<forall>c \<in> set r. P c))
      \<and> rejoin (splitOn P []) [] = []"
    by simp
  then show ?case by blast
next
  case (Cons c cs)
  from Cons.IH obtain runs where
    len: "length runs + 1 = length (splitOn P cs)"
    and ok: "\<forall>r \<in> set runs. r \<noteq> [] \<and> (\<forall>c \<in> set r. P c)"
    and re: "rejoin (splitOn P cs) runs = cs"
    by blast
  show ?case
  proof (cases "P c")
    case False
    obtain w ws where sp: "splitOn P cs = w # ws"
      using splitOn_nonempty [of P cs] by (cases "splitOn P cs") auto
    have "length runs + 1 = length (splitOn P (c # cs))
        \<and> (\<forall>r \<in> set runs. r \<noteq> [] \<and> (\<forall>c \<in> set r. P c))
        \<and> rejoin (splitOn P (c # cs)) runs = c # cs"
      using False len ok re by (simp add: sp rejoin_Cons_hd)
    then show ?thesis by blast
  next
    case True
    show ?thesis
    proof (cases "cs \<noteq> [] \<and> P (hd cs)")
      case False
      with True have sp: "splitOn P (c # cs) = [] # splitOn P cs" by auto
      have "length ([c] # runs) + 1 = length (splitOn P (c # cs))
          \<and> (\<forall>r \<in> set ([c] # runs). r \<noteq> [] \<and> (\<forall>c \<in> set r. P c))
          \<and> rejoin (splitOn P (c # cs)) ([c] # runs) = c # cs"
        unfolding sp using True len ok re by simp
      then show ?thesis by blast
    next
      case cont: True
      with True have sp: "splitOn P (c # cs) = splitOn P cs" by simp
      from cont obtain ps where ps: "splitOn P cs = [] # ps" "ps \<noteq> []"
        using splitOn_starts_delim [of cs P] by blast
      with len obtain r rs where runs: "runs = r # rs"
        by (cases runs) auto
      have "length ((c # r) # rs) + 1 = length (splitOn P (c # cs))
          \<and> (\<forall>r \<in> set ((c # r) # rs). r \<noteq> [] \<and> (\<forall>c \<in> set r. P c))
          \<and> rejoin (splitOn P (c # cs)) ((c # r) # rs) = c # cs"
        unfolding sp using True len ok re by (simp add: ps runs)
      then show ?thesis by blast
    qed
  qed
qed

lemma splitOn_inner_nonempty:
  "0 < i \<Longrightarrow> i + 1 < length (splitOn P s) \<Longrightarrow> splitOn P s ! i \<noteq> []"
proof (induction s arbitrary: i)
  case Nil
  then show ?case by simp
next
  case (Cons c cs)
  show ?case
  proof (cases "P c")
    case False
    obtain w ws where sp: "splitOn P cs = w # ws"
      using splitOn_nonempty [of P cs] by (cases "splitOn P cs") auto
    from False sp have e: "splitOn P (c # cs) = (c # w) # ws" by simp
    obtain j where j: "i = Suc j" using Cons.prems(1) by (cases i) auto
    have "i + 1 < length (splitOn P cs)"
      using Cons.prems(2) unfolding e sp by simp
    from Cons.IH [OF Cons.prems(1) this] show ?thesis
      unfolding e sp by (simp add: j)
  next
    case True
    show ?thesis
    proof (cases "cs \<noteq> [] \<and> P (hd cs)")
      case cont: True
      with True have sp: "splitOn P (c # cs) = splitOn P cs" by simp
      have l: "i + 1 < length (splitOn P cs)"
        using Cons.prems(2) unfolding sp .
      show ?thesis
        unfolding sp by (rule Cons.IH [OF Cons.prems(1) l])
    next
      case False
      with True have sp: "splitOn P (c # cs) = [] # splitOn P cs" by auto
      obtain j where j: "i = Suc j" using Cons.prems(1) by (cases i) auto
      have lj: "j + 1 < length (splitOn P cs)"
        using Cons.prems(2) unfolding sp by (simp add: j)
      show ?thesis
      proof (cases j)
        case (Suc k)
        then have "0 < j" by simp
        from Cons.IH [OF this lj] show ?thesis
          unfolding sp by (simp add: j)
      next
        case 0
        have "cs \<noteq> []"
        proof
          assume "cs = []"
          with lj show False by simp
        qed
        with False have "\<not> P (hd cs)" by simp
        from splitOn_starts_other [of cs P, OF \<open>cs \<noteq> []\<close> this]
        have "splitOn P cs ! 0 \<noteq> []"
          using splitOn_nonempty [of P cs] by (simp add: hd_conv_nth)
        then show ?thesis
          unfolding sp by (simp add: j 0)
      qed
    qed
  qed
qed

text \<open>
  Claim C7, as stated: every sentence of the list is trimmed, so none has leading or
  trailing whitespace. It fails: the filter only tests the trimmed piece. The second
  sentence of \<open>Cats purr. Dogs bark\<close> keeps its leading space.
\<close>

theorem sentences_trimmed_counterexample:
  "sentencesOf ''Cats purr. Dogs bark'' = [''Cats purr'', '' Dogs bark'']
   \<and> trim '' Dogs bark'' = ''Dogs bark'' \<and> '' Dogs bark'' \<noteq> ''Dogs bark''"
  by (simp add: sentencesOf_def isDelim_def trim_def isSpace_def)

text \<open>
  Claim C7, amended: the text is cut at the maximal runs of \<open>.\<close>, \<open>!\<close>, \<open>?\<close>. That is:
  the text is the pieces put together with a non-empty run of delimiters between each
  two neighbours; no piece contains a delimiter; only the first and the last piece can
  be empty (so every run is maximal, and the cut positions are determined). The
  sentences are the pieces that are not empty after trimming, in order and as they
  are, untrimmed; so every sentence has a non-whitespace character and no delimiter.
\<close>

theorem sentences_untrimmed:
  "(\<exists>runs. length runs + 1 = length (splitOn isDelim text)
        \<and> (\<forall>r \<in> set runs. r \<noteq> [] \<and> (\<forall>c \<in> set r. isDelim c))
        \<and> rejoin (splitOn isDelim text) runs = text)
   \<and> (\<forall>p \<in> set (splitOn isDelim text). \<forall>c \<in> set p. \<not> isDelim c)
   \<and> (\<forall>i. 0 < i \<and> i + 1 < length (splitOn isDelim text) \<longrightarrow> splitOn isDelim text ! i \<noteq> [])
   \<and> sentencesOf text = filter (\<lambda>s. trim s \<noteq> []) (splitOn isDelim text)
   \<and> (\<forall>s \<in> set (sentencesOf text). trim s \<noteq> [] \<and> (\<forall>c \<in> set s. \<not> isDelim c))"
proof (intro conjI)
  show "\<exists>runs. length runs + 1 = length (splitOn isDelim text)
        \<and> (\<forall>r \<in> set runs. r \<noteq> [] \<and> (\<forall>c \<in> set r. isDelim c))
        \<and> rejoin (splitOn isDelim text) runs = text"
    by (rule splitOn_rejoin)
  show "\<forall>p \<in> set (splitOn isDelim text). \<forall>c \<in> set p. \<not> isDelim c"
    using splitOn_pieces [where P = isDelim and s = "text"] by blast
  show "\<forall>i. 0 < i \<and> i + 1 < length (splitOn isDelim text) \<longrightarrow> splitOn isDelim text ! i \<noteq> []"
    using splitOn_inner_nonempty [where P = isDelim and s = "text"] by blast
  show "sentencesOf text = filter (\<lambda>s. trim s \<noteq> []) (splitOn isDelim text)"
    by (simp add: sentencesOf_def)
  show "\<forall>s \<in> set (sentencesOf text). trim s \<noteq> [] \<and> (\<forall>c \<in> set s. \<not> isDelim c)"
    using splitOn_pieces [where P = isDelim and s = "text"] by (auto simp: sentencesOf_def)
qed

theorem sentences_untrimmed_witness:
  "sentencesOf ''One. Two!? Three?'' = [''One'', '' Two'', '' Three'']
   \<and> (\<exists>runs. length runs + 1 = 4
         \<and> (\<forall>r \<in> set runs. r \<noteq> [] \<and> (\<forall>c \<in> set r. isDelim c))
         \<and> rejoin [''One'', '' Two'', '' Three'', ''''] runs = ''One. Two!? Three?'')"
proof -
  have sp: "splitOn isDelim ''One. Two!? Three?'' = [''One'', '' Two'', '' Three'', '''']"
    by code_simp
  have f: "filter (\<lambda>s. trim s \<noteq> []) [''One'', '' Two'', '' Three'', '''']
      = [''One'', '' Two'', '' Three'']"
    by code_simp
  from sentences_untrimmed [of "''One. Two!? Three?''"]
  have a: "\<exists>runs. length runs + 1 = length (splitOn isDelim ''One. Two!? Three?'')
        \<and> (\<forall>r \<in> set runs. r \<noteq> [] \<and> (\<forall>c \<in> set r. isDelim c))
        \<and> rejoin (splitOn isDelim ''One. Two!? Three?'') runs = ''One. Two!? Three?''"
    and b: "sentencesOf ''One. Two!? Three?''
        = filter (\<lambda>s. trim s \<noteq> []) (splitOn isDelim ''One. Two!? Three?'')"
    by blast+
  show ?thesis
    using a b unfolding sp f by (simp add: eval_nat_numeral)
qed

section \<open>The upload handler\<close>



section \<open>The pipeline\<close>

lemma processDocument_fields:
  "summary (processDocument shuffle kt st text) = generateSummary kt text"
  "keyTerms (processDocument shuffle kt st text) = extractKeyTerms text"
  "mcqs (processDocument shuffle kt st text) = generateMCQs shuffle text (extractKeyTerms text)"
  "qna (processDocument shuffle kt st text) = generateQnA text (extractKeyTerms text)"
  by (simp_all add: processDocument_def Let_def)

lemma example_terms:
  "extractKeyTerms ''a. b. c. alpha beta. d'' = [''alpha'', ''beta'', ''alpha beta'']"
  by code_simp

lemma example_summary_stale:
  "generateSummary [] ''a. b. c. alpha beta. d'' = ''a.  b.  c.''"
  by code_simp

lemma example_summary_fresh:
  "generateSummary [''alpha'', ''beta'', ''alpha beta''] ''a. b. c. alpha beta. d''
     = ''a.  b.  alpha beta.''"
  by code_simp

text \<open>
  Claim C2 says that the summary scores each sentence with the key terms just extracted
  from the same text. \<open>processDocument\<close> calls \<open>generateSummary(text)\<close> without the
  terms, and the scoring reads the state variable of the last render. On a first
  document that variable is empty: every term score is 0, where the extracted terms
  give the fourth sentence the score 3, and the summary keeps the third sentence instead
  of the fourth.
\<close>

theorem summary_ignores_fresh_terms:
  "extractKeyTerms ''a. b. c. alpha beta. d'' = [''alpha'', ''beta'', ''alpha beta'']
   \<and> map (termScore (extractKeyTerms ''a. b. c. alpha beta. d''))
         (sentencesOf ''a. b. c. alpha beta. d'') = [0, 0, 0, 3, 0]
   \<and> map (termScore (keyTerms initialState)) (sentencesOf ''a. b. c. alpha beta. d'')
       = [0, 0, 0, 0, 0]
   \<and> summary (processDocument shuffle (keyTerms initialState) initialState
         ''a. b. c. alpha beta. d'') = ''a.  b.  c.''
   \<and> generateSummary (extractKeyTerms ''a. b. c. alpha beta. d'') ''a. b. c. alpha beta. d''
       = ''a.  b.  alpha beta.''"
proof -
  have a: "map (termScore [''alpha'', ''beta'', ''alpha beta''])
         (sentencesOf ''a. b. c. alpha beta. d'') = [0, 0, 0, 3, 0]"
    by code_simp
  have b: "map (termScore []) (sentencesOf ''a. b. c. alpha beta. d'') = [0, 0, 0, 0, 0]"
    by code_simp
  have c: "keyTerms initialState = []"
    by (simp add: initialState_def)
  show ?thesis
    by (simp only: processDocument_fields example_terms example_summary_stale
        example_summary_fresh a b c simp_thms)
qed

section \<open>Questions and answers: ids\<close>

text \<open>
  Claim C3 says that the ids of the Q&A items are 1, 2, 3, ... without gaps or
  duplicates. A term item takes \<open>termIndex + 1\<close>, which counts skipped terms, and a
  generic item takes \<open>result.length + 1\<close>. For the text below the first key term (the
  trigram) occurs in no paragraph: the ids start at 2, and the main-topic item repeats
  the id 4.
\<close>

theorem qna_ids_not_sequential:
  "extractKeyTerms ''alpha. beta. gamma. one. two. six'' =
     [''alpha beta gamma'', ''alpha'', ''beta'', ''gamma'', ''alpha beta'', ''beta gamma'']
   \<and> map qna_id (generateQnA ''alpha. beta. gamma. one. two. six''
        (extractKeyTerms ''alpha. beta. gamma. one. two. six'')) = [2, 3, 4, 4]"
  by code_simp

section \<open>Questions and answers: the generic items\<close>

lemma variants_not_generic:
  "mainTopicQuestion \<notin> set (questionVariants term)"
  "conclusionQuestion \<notin> set (questionVariants term)"
  by (simp_all add: questionVariants_def mainTopicQuestion_def conclusionQuestion_def)

lemma termItems_questions:
  "q \<in> set (termItems paragraphs i ts result) \<Longrightarrow>
     q \<in> set result \<or> (\<exists>term. qna_question q \<in> set (questionVariants term))"
proof (induction ts arbitrary: i result)
  case Nil
  then show ?case by simp
next
  case (Cons t ts)
  show ?case
  proof (cases "filter (\<lambda>para. list_ex (mentions t) para) paragraphs")
    case Nil
    with Cons show ?thesis by auto
  next
    case (Cons p ps)
    have m: "questionVariants t ! (i mod 4) \<in> set (questionVariants t)"
      by (rule nth_mem) (simp add: questionVariants_def)
    from Cons Cons.prems Cons.IH [of "i + 1" "result @ [\<lparr> qna_id = i + 1,
                         qna_question = questionVariants t ! (i mod 4),
                         answer = trim (join '' '' p) \<rparr>]"]
    show ?thesis using m by auto
  qed
qed

lemma termItems_not_generic:
  assumes "q \<in> set (termItems paragraphs 0 ts [])"
  shows "qna_question q \<noteq> mainTopicQuestion \<and> qna_question q \<noteq> conclusionQuestion"
  using termItems_questions [OF assms] variants_not_generic by auto

lemma generic_differ: "mainTopicQuestion \<noteq> conclusionQuestion"
  by (simp add: mainTopicQuestion_def conclusionQuestion_def)

text \<open>
  Claim C9: the result of \<open>generateQnA\<close> has an item with the main-topic question
  exactly when there are more than 5 sentences, and the answer of such an item is the
  first three sentences joined by a space; it has an item with the conclusion question
  exactly when there are more than 10 sentences, and the answer of such an item is the
  last three sentences joined by a space.
\<close>

theorem generateQnA_generic_questions:
  "((\<exists>q \<in> set (generateQnA text kts). qna_question q = mainTopicQuestion)
      \<longleftrightarrow> length (sentencesOf text) > 5)
   \<and> (\<forall>q \<in> set (generateQnA text kts). qna_question q = mainTopicQuestion
        \<longrightarrow> answer q = join '' '' (take 3 (sentencesOf text)))
   \<and> ((\<exists>q \<in> set (generateQnA text kts). qna_question q = conclusionQuestion)
      \<longleftrightarrow> length (sentencesOf text) > 10)
   \<and> (\<forall>q \<in> set (generateQnA text kts). qna_question q = conclusionQuestion
        \<longrightarrow> answer q = join '' '' (drop (length (sentencesOf text) - 3) (sentencesOf text)))"
  using termItems_not_generic [of _ "groupParagraphs (sentencesOf text) [] []" "take 8 kts"]
    generic_differ
  by (auto simp: generateQnA_def Let_def)

theorem generateQnA_generic_questions_witness:
  "length (sentencesOf ''a. b. c. d. e. f. g. h. i. j. k'') = 11
   \<and> (\<exists>q \<in> set (generateQnA ''a. b. c. d. e. f. g. h. i. j. k'' [''zebra'']).
         qna_question q = mainTopicQuestion \<and> answer q = ''a  b  c'')
   \<and> (\<exists>q \<in> set (generateQnA ''a. b. c. d. e. f. g. h. i. j. k'' [''zebra'']).
         qna_question q = conclusionQuestion \<and> answer q = '' i  j  k'')"
proof -
  have len: "length (sentencesOf ''a. b. c. d. e. f. g. h. i. j. k'') = 11"
    by code_simp
  have a: "join '' '' (take 3 (sentencesOf ''a. b. c. d. e. f. g. h. i. j. k'')) = ''a  b  c''"
    by code_simp
  have b: "join '' '' (drop (11 - 3) (sentencesOf ''a. b. c. d. e. f. g. h. i. j. k''))
       = '' i  j  k''"
    by code_simp
  show ?thesis
    using generateQnA_generic_questions [of "''a. b. c. d. e. f. g. h. i. j. k''" "[''zebra'']"]
    unfolding len a b by auto
qed

section \<open>Multiple-choice questions: options and count\<close>

lemma map_of_objSet: "map_of (objSet k v ob) = (map_of ob)(k \<mapsto> v)"
  by (induction ob) (auto simp: fun_eq_iff)

lemma keys_objSet: "fst ` set (objSet k v ob) = insert k (fst ` set ob)"
proof (induction ob)
  case Nil
  then show ?case by simp
next
  case (Cons a ob)
  obtain k' v' where a: "a = (k', v')" by (cases a)
  show ?case using Cons by (cases "k' = k") (auto simp: a)
qed

lemma distinct_objSet: "distinct (map fst ob) \<Longrightarrow> distinct (map fst (objSet k v ob))"
  by (induction ob) (auto simp: keys_objSet)

lemma set_objEntries: "set (objEntries ob) = set ob"
  by (auto simp: objEntries_def)

lemma length_objEntries: "length (objEntries ob) = length ob"
  by (simp add: objEntries_def sum_length_filter_compl)

lemma set_objKeys: "set (objKeys ob) = fst ` set ob"
  by (simp add: objKeys_def set_objEntries)

lemma length_objKeys: "length (objKeys ob) = length ob"
  by (simp add: objKeys_def length_objEntries)

lemma indexOf_found:
  "x \<in> set xs \<Longrightarrow> 0 \<le> indexOf xs x \<and> indexOf xs x < int (length xs) \<and> xs ! nat (indexOf xs x) = x"
proof (induction xs)
  case Nil
  then show ?case by simp
next
  case (Cons y ys)
  show ?case
  proof (cases "y = x")
    case True
    then show ?thesis by simp
  next
    case False
    with Cons.prems have "x \<in> set ys" by simp
    from Cons.IH [OF this] False show ?thesis
      by (simp add: Let_def nat_add_distrib)
  qed
qed

lemma termSentences_foldl: "termSentences sentences kts = foldl (addTerm sentences) [] kts"
  by (simp only: termSentences_def)

lemma map_of_addTerms:
  "map_of (foldl (addTerm sentences) ob kts) t =
     (if t \<in> set kts \<and> t \<noteq> ''__proto__'' \<and> filter (mentions t) sentences \<noteq> []
      then Some (filter (mentions t) sentences) else map_of ob t)"
  by (induction kts arbitrary: ob) (auto simp: addTerm_def map_of_objSet Let_def)

lemma distinct_addTerms:
  "distinct (map fst ob) \<Longrightarrow> distinct (map fst (foldl (addTerm sentences) ob kts))"
  by (induction kts arbitrary: ob) (auto simp: addTerm_def distinct_objSet Let_def)

lemma map_of_termSentences:
  "map_of (termSentences sentences kts) t =
     (if t \<in> set kts \<and> t \<noteq> ''__proto__'' \<and> filter (mentions t) sentences \<noteq> []
      then Some (filter (mentions t) sentences) else None)"
  by (simp add: termSentences_foldl map_of_addTerms)

lemma distinct_termSentences: "distinct (map fst (termSentences sentences kts))"
  by (simp add: termSentences_foldl distinct_addTerms)

lemma keys_termSentences:
  "fst ` set (termSentences sentences kts) =
     {t \<in> set kts. t \<noteq> ''__proto__'' \<and> filter (mentions t) sentences \<noteq> []}"
proof -
  have "fst ` set (termSentences sentences kts) = dom (map_of (termSentences sentences kts))"
    by (simp add: dom_map_of_conv_image_fst)
  also have "\<dots> = {t \<in> set kts. t \<noteq> ''__proto__'' \<and> filter (mentions t) sentences \<noteq> []}"
    by (auto simp: dom_def map_of_termSentences)
  finally show ?thesis .
qed

lemma termSentences_nonempty:
  assumes "(t, related) \<in> set (termSentences sentences kts)"
  shows "related = filter (mentions t) sentences \<and> related \<noteq> []"
proof -
  from assms have "map_of (termSentences sentences kts) t = Some related"
    using distinct_termSentences by simp
  then show ?thesis
    by (simp add: map_of_termSentences split: if_splits)
qed

lemma selectedTerms_subset:
  "t \<in> set (selectedTerms sentences kts) \<Longrightarrow>
     t \<in> set kts \<and> t \<noteq> ''__proto__'' \<and> filter (mentions t) sentences \<noteq> []"
proof -
  assume "t \<in> set (selectedTerms sentences kts)"
  then have "t \<in> set (objKeys (termSentences sentences kts))"
    unfolding selectedTerms_def by (rule in_set_takeD)
  then show ?thesis
    by (simp add: set_objKeys keys_termSentences)
qed

lemma targetSentence_selected:
  assumes "t \<in> set (selectedTerms sentences kts)"
  shows "targetSentence sentences kts t = hd (filter (mentions t) sentences)"
  using selectedTerms_subset [OF assms]
  by (simp add: targetSentence_def map_of_termSentences)

lemma length_termSentences:
  "length (termSentences sentences kts) =
     card {t \<in> set kts. t \<noteq> ''__proto__'' \<and> filter (mentions t) sentences \<noteq> []}"
proof -
  have "length (termSentences sentences kts) = length (map fst (termSentences sentences kts))"
    by simp
  also have "\<dots> = card (set (map fst (termSentences sentences kts)))"
    using distinct_termSentences by (simp only: distinct_card)
  also have "\<dots> = card {t \<in> set kts. t \<noteq> ''__proto__'' \<and> filter (mentions t) sentences \<noteq> []}"
    by (simp add: keys_termSentences)
  finally show ?thesis .
qed

lemma length_selectedTerms:
  "length (selectedTerms sentences kts) =
     min 10 (card {t \<in> set kts. t \<noteq> ''__proto__'' \<and> filter (mentions t) sentences \<noteq> []})"
proof -
  let ?S = "{t \<in> set kts. t \<noteq> ''__proto__'' \<and> filter (mentions t) sentences \<noteq> []}"
  have "card ?S \<le> card (set kts)"
    by (rule card_mono) auto
  also have "\<dots> \<le> length kts"
    by (rule card_length)
  finally have "card ?S \<le> length kts" .
  then show ?thesis
    by (simp add: selectedTerms_def length_objKeys length_termSentences)
qed

lemma length_generateMCQs:
  "length (generateMCQs shuffle text kts) = length (selectedTerms (sentencesOf text) kts)"
  by (simp add: generateMCQs_def Let_def)

lemma length_optionsFor: "length (optionsFor term target) = 4"
  by (simp add: optionsFor_def)

lemma optionsFor_first: "optionsFor term target ! 0 = trim target"
  by (simp add: optionsFor_def)

lemma makeMCQ_correct:
  assumes perm: "mset (shuffle i (optionsFor term target)) = mset (optionsFor term target)"
    and tgt: "targetSentence sentences kts term = target"
  shows "length (options (makeMCQ shuffle sentences kts i term)) = 4
    \<and> 0 \<le> correctAnswer (makeMCQ shuffle sentences kts i term)
    \<and> correctAnswer (makeMCQ shuffle sentences kts i term) < 4
    \<and> options (makeMCQ shuffle sentences kts i term)
        ! nat (correctAnswer (makeMCQ shuffle sentences kts i term)) = trim target"
proof -
  let ?opts = "optionsFor term target"
  let ?sh = "shuffle i ?opts"
  have len: "length ?sh = 4"
    using mset_eq_length [OF perm] by (simp add: length_optionsFor)
  have "trim target \<in> set ?opts"
    by (simp add: optionsFor_def)
  then have "trim target \<in> set ?sh"
    using mset_eq_setD [OF perm] by simp
  from indexOf_found [OF this] len
  show ?thesis
    by (simp add: makeMCQ_def Let_def tgt optionsFor_first)
qed

lemma matching_card:
  "{t \<in> set kts. t \<noteq> ''__proto__'' \<and> filter (mentions t) sentences \<noteq> []}
     = {t \<in> set kts. t \<noteq> ''__proto__'' \<and> (\<exists>s \<in> set sentences. mentions t s)}"
  by (auto simp: filter_empty_conv)

lemma length_termsWithMatches:
  assumes "distinct kts" and "''__proto__'' \<notin> set kts"
  shows "length (termsWithMatches sentences kts)
     = card {t \<in> set kts. t \<noteq> ''__proto__'' \<and> (\<exists>s \<in> set sentences. mentions t s)}"
proof -
  have d: "distinct (termsWithMatches sentences kts)"
    using assms(1) by (simp add: termsWithMatches_def)
  have "set (termsWithMatches sentences kts)
      = {t \<in> set kts. t \<noteq> ''__proto__'' \<and> (\<exists>s \<in> set sentences. mentions t s)}"
    using assms(2) by (auto simp: termsWithMatches_def list_ex_iff)
  then show ?thesis
    using distinct_card [OF d] by simp
qed

text \<open>
  Claim C5: whatever permutation each call of the shuffle returns, \<open>generateMCQs\<close> makes
  one item per selected term, in order; the term of each item has a matching sentence;
  the item has exactly 4 options, \<open>correctAnswer\<close> is an index into them, and the option
  at that index is the trimmed target sentence, the first sentence that mentions the
  term.
\<close>

theorem generateMCQs_correct_option:
  assumes "\<And>i xs. mset (shuffle i xs) = mset xs"
  shows "length (generateMCQs shuffle text kts) = length (selectedTerms (sentencesOf text) kts)
    \<and> (\<forall>i < length (selectedTerms (sentencesOf text) kts).
          filter (mentions (selectedTerms (sentencesOf text) kts ! i)) (sentencesOf text) \<noteq> []
        \<and> length (options (generateMCQs shuffle text kts ! i)) = 4
        \<and> 0 \<le> correctAnswer (generateMCQs shuffle text kts ! i)
        \<and> correctAnswer (generateMCQs shuffle text kts ! i) < 4
        \<and> options (generateMCQs shuffle text kts ! i)
            ! nat (correctAnswer (generateMCQs shuffle text kts ! i))
           = trim (hd (filter (mentions (selectedTerms (sentencesOf text) kts ! i))
                         (sentencesOf text))))"
proof (intro conjI allI impI)
  show "length (generateMCQs shuffle text kts) = length (selectedTerms (sentencesOf text) kts)"
    by (rule length_generateMCQs)
next
  fix i
  assume i: "i < length (selectedTerms (sentencesOf text) kts)"
  let ?t = "selectedTerms (sentencesOf text) kts ! i"
  have mem: "?t \<in> set (selectedTerms (sentencesOf text) kts)"
    using i by (rule nth_mem)
  have item: "generateMCQs shuffle text kts ! i = makeMCQ shuffle (sentencesOf text) kts i ?t"
    using i by (simp add: generateMCQs_def Let_def)
  note m = makeMCQ_correct [where shuffle = shuffle and i = i, OF assms targetSentence_selected [OF mem]]
  show "filter (mentions ?t) (sentencesOf text) \<noteq> []"
    using selectedTerms_subset [OF mem] by simp
  show "length (options (generateMCQs shuffle text kts ! i)) = 4"
    using m by (simp add: item)
  show "0 \<le> correctAnswer (generateMCQs shuffle text kts ! i)"
    using m by (simp add: item)
  show "correctAnswer (generateMCQs shuffle text kts ! i) < 4"
    using m by (simp add: item)
  show "options (generateMCQs shuffle text kts ! i)
            ! nat (correctAnswer (generateMCQs shuffle text kts ! i))
           = trim (hd (filter (mentions ?t) (sentencesOf text)))"
    using m by (simp add: item)
qed

theorem generateMCQs_correct_option_witness:
  "length (options (generateMCQs revShuffle ''Cats are mammals. Dogs bark'' [''mammals'', ''zebra''] ! 0)) = 4
   \<and> options (generateMCQs revShuffle ''Cats are mammals. Dogs bark'' [''mammals'', ''zebra''] ! 0)
       ! nat (correctAnswer
           (generateMCQs revShuffle ''Cats are mammals. Dogs bark'' [''mammals'', ''zebra''] ! 0))
     = ''Cats are mammals''"
proof -
  have perm: "\<And>i xs. mset (revShuffle i xs) = mset xs"
    by (simp add: revShuffle_def)
  have sel: "selectedTerms (sentencesOf ''Cats are mammals. Dogs bark'') [''mammals'', ''zebra'']
      = [''mammals'']"
    by code_simp
  have tgt: "trim (hd (filter (mentions ''mammals'') (sentencesOf ''Cats are mammals. Dogs bark'')))
      = ''Cats are mammals''"
    by code_simp
  show ?thesis
    using generateMCQs_correct_option [of revShuffle "''Cats are mammals. Dogs bark''"
        "[''mammals'', ''zebra'']", OF perm]
    unfolding sel by (simp add: tgt)
qed

lemma keys_bump: "fst ` set (bump k d ob) = insert k (fst ` set ob)"
  by (simp add: bump_def keys_objSet)

lemma distinct_bump: "distinct (map fst ob) \<Longrightarrow> distinct (map fst (bump k d ob))"
  by (simp add: bump_def distinct_objSet)

lemma wellKeyed_bump: "wellKeyed ob \<Longrightarrow> k \<noteq> ''__proto__'' \<Longrightarrow> wellKeyed (bump k d ob)"
  by (simp add: wellKeyed_def keys_bump distinct_bump)

lemma wellKeyed_bump_if:
  "wellKeyed ob \<Longrightarrow> k \<noteq> ''__proto__'' \<Longrightarrow> wellKeyed (if c then bump k d ob else ob)"
  by (simp add: wellKeyed_bump)

lemma wellKeyed_countWord: "wellKeyed ob \<Longrightarrow> wellKeyed (countWord ob word)"
  by (simp add: countWord_def wellKeyed_bump)

lemma wellKeyed_foldl_countWord: "wellKeyed ob \<Longrightarrow> wellKeyed (foldl countWord ob ws)"
  by (induction ws arbitrary: ob) (simp_all add: wellKeyed_countWord)

lemma wellKeyed_countWords: "wellKeyed (countWords ws)"
  unfolding countWords_def by (rule wellKeyed_foldl_countWord) (simp add: wellKeyed_def)

lemma phrase_not_proto:
  "a @ '' '' @ b \<noteq> ''__proto__''"
proof
  assume e: "a @ '' '' @ b = ''__proto__''"
  have "CHR '' '' \<in> set (a @ '' '' @ b)" by simp
  then have "CHR '' '' \<in> set ''__proto__''" unfolding e .
  then show False by simp
qed

lemma wellKeyed_findPhrases: "wellKeyed ph \<Longrightarrow> wellKeyed (findPhrases ws ph)"
proof (induction ws ph rule: findPhrases.induct)
  case (1 a b rest phrases)
  let ?p1 = "if length a > 3 \<and> length b > 3 \<and> a \<notin> set stopWords \<and> b \<notin> set stopWords
             then bump (a @ '' '' @ b) 1 phrases else phrases"
  let ?p2 = "case rest of
               [] \<Rightarrow> ?p1
             | c # _ \<Rightarrow>
                 if length a > 3 \<and> length b > 3 \<and> length c > 3
                    \<and> a \<notin> set stopWords \<and> c \<notin> set stopWords
                 then bump (a @ '' '' @ b @ '' '' @ c) 3 ?p1 else ?p1"
  have w1: "wellKeyed ?p1"
    using "1.prems" phrase_not_proto [of a b] by (rule wellKeyed_bump_if)
  have w2: "wellKeyed ?p2"
  proof (cases rest)
    case Nil
    with w1 show ?thesis by (simp only: list.case)
  next
    case (Cons c cs)
    show ?thesis
      unfolding Cons list.case
      using w1 phrase_not_proto [of a "b @ '' '' @ c"] by (rule wellKeyed_bump_if)
  qed
  have "findPhrases (a # b # rest) phrases = findPhrases (b # rest) ?p2"
    by (subst findPhrases.simps(1)) (simp only: Let_def)
  then show ?case
    using "1.IH" [OF refl refl w2] by simp
qed simp_all


lemma wellKeyed_objSet: "wellKeyed ob \<Longrightarrow> k \<noteq> ''__proto__'' \<Longrightarrow> wellKeyed (objSet k v ob)"
  by (simp add: wellKeyed_def keys_objSet distinct_objSet)

lemma wellKeyed_assign:
  "wellKeyed ob \<Longrightarrow> \<forall>e \<in> set es. fst e \<noteq> ''__proto__'' \<Longrightarrow>
     wellKeyed (foldl (\<lambda>ob (k, v). objSet k v ob) ob es)"
  by (induction es arbitrary: ob) (simp_all add: wellKeyed_objSet case_prod_beta)

lemma wellKeyed_spread:
  assumes "wellKeyed a" and "wellKeyed b"
  shows "wellKeyed (spread a b)"
proof -
  have "\<forall>e \<in> set (objEntries a @ objEntries b). fst e \<noteq> ''__proto__''"
    using assms by (auto simp: set_objEntries wellKeyed_def image_iff)
  moreover have "wellKeyed ([] :: 'a obj)"
    by (simp add: wellKeyed_def)
  ultimately show ?thesis
    unfolding spread_def by (intro wellKeyed_assign)
qed

lemma mset_objEntries: "mset (objEntries ob) = mset ob"
  by (simp add: objEntries_def)

lemma mset_insertBy: "mset (insertBy cmp x xs) = add_mset x (mset xs)"
  by (induction xs) simp_all

lemma mset_sortBy: "mset (sortBy cmp xs) = mset xs"
  unfolding sortBy_def by (induction xs) (simp_all add: mset_insertBy)

lemma wellKeyed_perm:
  assumes "mset xs = mset ys" and "wellKeyed xs"
  shows "wellKeyed ys"
proof -
  from assms(1) have "mset (map fst xs) = mset (map fst ys)"
    by simp
  then have "distinct (map fst xs) = distinct (map fst ys)"
    by (rule mset_eq_imp_distinct_iff)
  moreover have "set xs = set ys"
    using assms(1) by (rule mset_eq_setD)
  ultimately show ?thesis
    using assms(2) by (simp add: wellKeyed_def)
qed

lemma byCountDesc_numbers:
  "snd a \<noteq> NonNumeric \<Longrightarrow> snd b \<noteq> NonNumeric \<Longrightarrow> byCountDesc a b = countOf b - countOf a"
  by (cases "snd a"; cases "snd b") (simp_all add: byCountDesc_def countOf_def)

lemma insertBy_numbers:
  "snd x \<noteq> NonNumeric \<Longrightarrow> \<forall>e \<in> set ys. snd e \<noteq> NonNumeric \<Longrightarrow>
     insertBy byCountDesc x ys = insort_key (\<lambda>e. - countOf e) x ys"
  by (induction ys) (simp_all add: byCountDesc_numbers)

lemma sortByCountDesc_numbers:
  "\<forall>e \<in> set es. snd e \<noteq> NonNumeric \<Longrightarrow>
     sortByCountDesc es = sort_key (\<lambda>e. - countOf e) es"
  unfolding sortByCountDesc_def sortBy_def
  by (induction es) (simp_all add: insertBy_numbers)

lemma extractKeyTerms_wellformed:
  "distinct (extractKeyTerms text) \<and> ''__proto__'' \<notin> set (extractKeyTerms text)"
proof -
  define combined where
    "combined = spread (countWords (wordsOf text)) (findPhrases (wordsOf text) [])"
  define L where "L = sortByCountDesc (objEntries combined)"
  have "wellKeyed ([] :: count obj)"
    by (simp add: wellKeyed_def)
  then have "wellKeyed combined"
    unfolding combined_def by (intro wellKeyed_spread wellKeyed_countWords wellKeyed_findPhrases)
  moreover have "mset combined = mset L"
    by (simp add: L_def sortByCountDesc_def mset_sortBy mset_objEntries)
  ultimately have w: "wellKeyed L"
    by (rule wellKeyed_perm [rotated])
  have e: "extractKeyTerms text = take 20 (map fst L)"
    by (simp add: extractKeyTerms_def Let_def L_def combined_def take_map)
  have "distinct (take 20 (map fst L))"
    using w by (intro distinct_take) (simp add: wellKeyed_def)
  moreover have "''__proto__'' \<notin> set (take 20 (map fst L))"
    using w in_set_takeD [of "''__proto__''" 20 "map fst L"] by (auto simp: wellKeyed_def)
  ultimately show ?thesis
    by (simp only: e simp_thms)
qed

lemma selectedTerms_matched:
  "set (selectedTerms sentences kts) \<subseteq> set (termsWithMatches sentences kts)"
proof
  fix t assume "t \<in> set (selectedTerms sentences kts)"
  from selectedTerms_subset [OF this]
  show "t \<in> set (termsWithMatches sentences kts)"
    by (auto simp: termsWithMatches_def list_ex_iff filter_empty_conv)
qed

lemma count_for_wellKeyed_terms:
  assumes "distinct kts" and "''__proto__'' \<notin> set kts"
  shows "length (generateMCQs shuffle text kts)
     = min 10 (length (termsWithMatches (sentencesOf text) kts))"
  using assms
  by (simp add: length_generateMCQs length_selectedTerms matching_card length_termsWithMatches)

text \<open>
  Claim C8: \<open>generateMCQs\<close> is called with the key-term list that \<open>extractKeyTerms\<close>
  returned. For every text and every such list the number of items is the minimum of 10
  and the number of key terms that have at least one matching sentence, and every
  selected term is one of these: terms without a matching sentence take no slot. The
  count is the same for every key-term list that has no repetition and not the key
  \<open>__proto__\<close>, which is what the keys of an object are.
\<close>

theorem generateMCQs_count:
  "length (generateMCQs shuffle text (extractKeyTerms source))
     = min 10 (length (termsWithMatches (sentencesOf text) (extractKeyTerms source)))
   \<and> set (selectedTerms (sentencesOf text) (extractKeyTerms source))
       \<subseteq> set (termsWithMatches (sentencesOf text) (extractKeyTerms source))
   \<and> (distinct kts \<and> ''__proto__'' \<notin> set kts \<longrightarrow>
        length (generateMCQs shuffle text kts)
          = min 10 (length (termsWithMatches (sentencesOf text) kts)))"
  using extractKeyTerms_wellformed [of source]
  by (simp add: count_for_wellKeyed_terms selectedTerms_matched)

theorem generateMCQs_count_witness:
  "distinct [''mammals'', ''zebra'', ''dogs''] \<and> ''__proto__'' \<notin> set [''mammals'', ''zebra'', ''dogs'']
   \<and> length (generateMCQs revShuffle ''Cats are mammals. Dogs bark'' [''mammals'', ''zebra'', ''dogs'']) = 2
   \<and> extractKeyTerms ''Cats are mammals. Dogs bark'' = [''mammals dogs bark'', ''cats'', ''mammals'', ''dogs'', ''bark'', ''mammals dogs'', ''dogs bark'']
   \<and> length (generateMCQs revShuffle ''Cats are mammals. Dogs bark''
        (extractKeyTerms ''Cats are mammals. Dogs bark'')) = 5"
proof -
  have d: "distinct [''mammals'', ''zebra'', ''dogs''] \<and> ''__proto__'' \<notin> set [''mammals'', ''zebra'', ''dogs'']"
    by simp
  have m: "termsWithMatches (sentencesOf ''Cats are mammals. Dogs bark'') [''mammals'', ''zebra'', ''dogs'']
      = [''mammals'', ''dogs'']"
    by code_simp
  have e: "extractKeyTerms ''Cats are mammals. Dogs bark''
      = [''mammals dogs bark'', ''cats'', ''mammals'', ''dogs'', ''bark'', ''mammals dogs'', ''dogs bark'']"
    by code_simp
  have n: "termsWithMatches (sentencesOf ''Cats are mammals. Dogs bark'')
        [''mammals dogs bark'', ''cats'', ''mammals'', ''dogs'', ''bark'', ''mammals dogs'', ''dogs bark'']
      = [''cats'', ''mammals'', ''dogs'', ''bark'', ''dogs bark'']"
    by code_simp
  show ?thesis
    using generateMCQs_count [of revShuffle "''Cats are mammals. Dogs bark''"
        "''Cats are mammals. Dogs bark''" "[''mammals'', ''zebra'', ''dogs'']"] d
    unfolding e n m by simp
qed

section \<open>The pipeline run twice\<close>

lemma mcq_item:
  assumes "i < length (selectedTerms (sentencesOf text) kts)"
  shows "generateMCQs shuffle text kts ! i
     = makeMCQ shuffle (sentencesOf text) kts i (selectedTerms (sentencesOf text) kts ! i)"
  using assms by (simp add: generateMCQs_def Let_def)

lemma mcq_correct_string:
  assumes "\<And>i xs. mset (shuffle i xs) = mset xs"
    and "i < length (selectedTerms (sentencesOf text) kts)"
  shows "options (generateMCQs shuffle text kts ! i)
           ! nat (correctAnswer (generateMCQs shuffle text kts ! i))
     = trim (hd (filter (mentions (selectedTerms (sentencesOf text) kts ! i)) (sentencesOf text)))"
proof -
  have mem: "selectedTerms (sentencesOf text) kts ! i \<in> set (selectedTerms (sentencesOf text) kts)"
    using assms(2) by (rule nth_mem)
  from makeMCQ_correct [where shuffle = shuffle and i = i, OF assms(1)
      targetSentence_selected [OF mem]]
  show ?thesis
    by (simp add: mcq_item [OF assms(2)])
qed

lemma mcq_question_item:
  assumes "i < length (selectedTerms (sentencesOf text) kts)"
  shows "mcq_question (generateMCQs shuffle text kts ! i)
     = questionFor (selectedTerms (sentencesOf text) kts ! i)"
  by (simp add: mcq_item [OF assms] makeMCQ_def Let_def)

text \<open>
  Claim C4: the closure that runs the pipeline reads the key-term state of the render
  that created it. The file input is rendered only while no file is selected, and the
  selected file is never cleared, so in a mounted component every run of the pipeline
  reads the key-term state of the first render. Two runs on the same text that read the
  same rendered key terms \<open>kt\<close>, from any two states and with any two permutations as
  shuffles, give the same summary, the same question/answer pairs and the same key
  terms; they give the same number of questions, with the same question texts and with
  the same string at \<open>options[correctAnswer]\<close>; with the same shuffle the questions are
  the same altogether.
\<close>

theorem pipeline_twice_same_outputs:
  assumes "\<And>i xs. mset (shuffle1 i xs) = mset xs"
    and "\<And>i xs. mset (shuffle2 i xs) = mset xs"
  shows "summary (processDocument shuffle1 kt st1 text)
       = summary (processDocument shuffle2 kt st2 text)
   \<and> qna (processDocument shuffle1 kt st1 text) = qna (processDocument shuffle2 kt st2 text)
   \<and> keyTerms (processDocument shuffle1 kt st1 text)
       = keyTerms (processDocument shuffle2 kt st2 text)
   \<and> length (mcqs (processDocument shuffle1 kt st1 text))
       = length (mcqs (processDocument shuffle2 kt st2 text))
   \<and> (\<forall>i < length (mcqs (processDocument shuffle1 kt st1 text)).
         mcq_question (mcqs (processDocument shuffle1 kt st1 text) ! i)
           = mcq_question (mcqs (processDocument shuffle2 kt st2 text) ! i)
         \<and> options (mcqs (processDocument shuffle1 kt st1 text) ! i)
             ! nat (correctAnswer (mcqs (processDocument shuffle1 kt st1 text) ! i))
           = options (mcqs (processDocument shuffle2 kt st2 text) ! i)
             ! nat (correctAnswer (mcqs (processDocument shuffle2 kt st2 text) ! i)))
   \<and> mcqs (processDocument shuffle1 kt st1 text) = mcqs (processDocument shuffle1 kt st2 text)"
proof -
  let ?K = "extractKeyTerms text"
  have "\<forall>i < length (generateMCQs shuffle1 text ?K).
         mcq_question (generateMCQs shuffle1 text ?K ! i)
           = mcq_question (generateMCQs shuffle2 text ?K ! i)
         \<and> options (generateMCQs shuffle1 text ?K ! i)
             ! nat (correctAnswer (generateMCQs shuffle1 text ?K ! i))
           = options (generateMCQs shuffle2 text ?K ! i)
             ! nat (correctAnswer (generateMCQs shuffle2 text ?K ! i))"
  proof (intro allI impI)
    fix i assume "i < length (generateMCQs shuffle1 text ?K)"
    then have i: "i < length (selectedTerms (sentencesOf text) ?K)"
      by (simp only: length_generateMCQs)
    show "mcq_question (generateMCQs shuffle1 text ?K ! i)
           = mcq_question (generateMCQs shuffle2 text ?K ! i)
         \<and> options (generateMCQs shuffle1 text ?K ! i)
             ! nat (correctAnswer (generateMCQs shuffle1 text ?K ! i))
           = options (generateMCQs shuffle2 text ?K ! i)
             ! nat (correctAnswer (generateMCQs shuffle2 text ?K ! i))"
      unfolding mcq_correct_string [of shuffle1, OF assms(1) i]
        mcq_correct_string [of shuffle2, OF assms(2) i] mcq_question_item [OF i]
      by simp
  qed
  then show ?thesis
    by (simp add: processDocument_fields length_generateMCQs)
qed

theorem pipeline_twice_same_outputs_witness:
  "summary (processDocument revShuffle (keyTerms initialState) initialState
        ''a. b. c. alpha beta. d'') = ''a.  b.  c.''
   \<and> summary (processDocument keepShuffle (keyTerms initialState)
        (initialState\<lparr> summary := ''Cats purr.'' \<rparr>) ''a. b. c. alpha beta. d'') = ''a.  b.  c.''
   \<and> options (mcqs (processDocument revShuffle (keyTerms initialState) initialState
            ''a. b. c. alpha beta. d'') ! 0)
        ! nat (correctAnswer (mcqs (processDocument revShuffle (keyTerms initialState)
            initialState ''a. b. c. alpha beta. d'') ! 0))
      = options (mcqs (processDocument keepShuffle (keyTerms initialState)
            (initialState\<lparr> summary := ''Cats purr.'' \<rparr>) ''a. b. c. alpha beta. d'') ! 0)
        ! nat (correctAnswer (mcqs (processDocument keepShuffle (keyTerms initialState)
            (initialState\<lparr> summary := ''Cats purr.'' \<rparr>) ''a. b. c. alpha beta. d'') ! 0))"
proof -
  have p1: "\<And>i xs. mset (revShuffle i xs) = mset xs"
    by (simp add: revShuffle_def)
  have p2: "\<And>i xs. mset (keepShuffle i xs) = mset xs"
    by (simp add: keepShuffle_def)
  have c: "keyTerms initialState = []"
    by (simp add: initialState_def)
  have n: "length (mcqs (processDocument revShuffle [] initialState ''a. b. c. alpha beta. d'')) = 3"
    unfolding processDocument_fields example_terms by code_simp
  show ?thesis
    using pipeline_twice_same_outputs [of revShuffle keepShuffle "[]" initialState
        "''a. b. c. alpha beta. d''" "initialState\<lparr> summary := ''Cats purr.'' \<rparr>", OF p1 p2] n
    unfolding c by (simp add: processDocument_fields example_summary_stale)
qed

section \<open>Summary: the selected sentences\<close>

lemma take_sort_key_stable:
  fixes f :: "'a \<Rightarrow> 'k::linorder" and g :: "'a \<Rightarrow> nat"
  assumes pos: "sorted_wrt (<) (map g xs)"
    and a: "a \<in> set (take k (sort_key f xs))"
    and b: "b \<in> set (drop k (sort_key f xs))"
  shows "f a < f b \<or> (f a = f b \<and> g a < g b)"
proof -
  let ?L = "sort_key f xs"
  have "sorted (map f (take k ?L @ drop k ?L))"
    by simp
  then have "sorted (map f (take k ?L) @ map f (drop k ?L))"
    by (simp only: map_append)
  then have le: "f a \<le> f b"
    using a b by (auto simp: sorted_append)
  show ?thesis
  proof (cases "f a = f b")
    case False
    with le show ?thesis by simp
  next
    case True
    let ?P = "\<lambda>y. f y = f a"
    have e: "filter ?P ?L = filter ?P (take k ?L) @ filter ?P (drop k ?L)"
      by (metis append_take_drop_id filter_append)
    have "sorted_wrt (<) (map g (filter ?P ?L))"
      using pos by (simp add: sort_key_stable sorted_wrt_map sorted_wrt_filter)
    then have "sorted_wrt (<) (map g (filter ?P (take k ?L)) @ map g (filter ?P (drop k ?L)))"
      unfolding e map_append .
    moreover have "g a \<in> set (map g (filter ?P (take k ?L)))"
      using a by simp
    moreover have "g b \<in> set (map g (filter ?P (drop k ?L)))"
      using b True by simp
    ultimately have "g a < g b"
      unfolding sorted_wrt_append by blast
    with True show ?thesis by simp
  qed
qed

lemma length_combinedScores: "length (combinedScores kts S) = length S"
  by (simp add: combinedScores_def)

lemma summaryLength_le: "3 < n \<Longrightarrow> summaryLength n \<le> n"
proof -
  assume n: "3 < n"
  have "of_nat n * (1 / 4 :: rat) \<le> of_int (int n)"
    by simp
  then have "\<lceil>of_nat n * (1 / 4 :: rat)\<rceil> \<le> int n"
    by (simp only: ceiling_le_iff)
  then have "nat \<lceil>of_nat n * (1 / 4 :: rat)\<rceil> \<le> n"
    by simp
  with n show ?thesis
    by (simp add: summaryLength_def)
qed


lemma topIndexes_props:
  "length (topIndexes k sc) = min (length sc) k"
  "sorted_wrt (<) (topIndexes k sc)"
  "i \<in> set (topIndexes k sc) \<Longrightarrow> i < length sc"
  "i \<in> set (topIndexes k sc) \<Longrightarrow> j < length sc \<Longrightarrow> j \<notin> set (topIndexes k sc) \<Longrightarrow>
     sc ! j < sc ! i \<or> (sc ! j = sc ! i \<and> i < j)"
proof -
  define xs where "xs = zip sc [0..<length sc]"
  define f :: "rat \<times> nat \<Rightarrow> rat" where "f = (\<lambda>(score, index). - score)"
  define L where "L = sort_key f xs"
  have top: "topIndexes k sc = sort (map snd (take k L))"
    by (simp add: topIndexes_def L_def f_def xs_def)
  have snd_xs: "map snd xs = [0..<length sc]"
    by (simp add: xs_def)
  have len_xs: "length xs = length sc"
    by (simp add: xs_def)
  have in_xs: "snd p < length sc \<and> fst p = sc ! snd p" if "p \<in> set xs" for p
  proof -
    from that obtain n where n: "sc ! n = fst p" "[0..<length sc] ! n = snd p" "n < length sc"
      unfolding xs_def in_set_zip by auto
    then show ?thesis by simp
  qed
  have xs_mem: "(sc ! j, j) \<in> set xs" if "j < length sc" for j
    unfolding xs_def in_set_zip using that by (intro exI [of _ j]) simp
  have set_L: "set L = set xs"
    by (simp add: L_def)
  have "distinct (map snd xs)"
    by (simp only: snd_xs distinct_upt)
  then have inj: "inj_on snd (set xs)" and dxs: "distinct xs"
    by (simp_all add: distinct_map)
  have "distinct L"
    using dxs by (simp add: L_def)
  then have "distinct (map snd L)"
    using inj by (simp add: distinct_map set_L)
  then have "distinct (take k (map snd L))"
    by (rule distinct_take)
  then have dist: "distinct (map snd (take k L))"
    by (simp only: take_map)
  have set_top: "set (topIndexes k sc) = snd ` set (take k L)"
    by (simp add: top)
  show "length (topIndexes k sc) = min (length sc) k"
    by (simp add: top L_def len_xs)
  show "sorted_wrt (<) (topIndexes k sc)"
    using dist by (simp add: top strict_sorted_iff)
  show "i < length sc" if "i \<in> set (topIndexes k sc)"
  proof -
    from that obtain p where p: "p \<in> set (take k L)" "i = snd p"
      unfolding set_top by blast
    from p(1) have "p \<in> set L" by (rule in_set_takeD)
    then show ?thesis using in_xs [of p] p(2) by (simp add: set_L)
  qed
  show "sc ! j < sc ! i \<or> (sc ! j = sc ! i \<and> i < j)"
    if i: "i \<in> set (topIndexes k sc)" and j: "j < length sc" and nj: "j \<notin> set (topIndexes k sc)"
  proof -
    from i obtain p where p: "p \<in> set (take k L)" "i = snd p"
      unfolding set_top by blast
    from p(1) have "p \<in> set L" by (rule in_set_takeD)
    then have "p \<in> set xs" by (simp add: set_L)
    from in_xs [OF this] p(2) have pi: "p = (sc ! i, i)"
      by (simp add: prod_eq_iff)
    have "(sc ! j, j) \<in> set (take k L @ drop k L)"
      using xs_mem [OF j] by (simp add: set_L)
    then have "(sc ! j, j) \<in> set (take k L) \<or> (sc ! j, j) \<in> set (drop k L)"
      by (simp only: set_append Un_iff)
    moreover have "(sc ! j, j) \<notin> set (take k L)"
    proof
      assume "(sc ! j, j) \<in> set (take k L)"
      then have "snd (sc ! j, j) \<in> snd ` set (take k L)" by (rule imageI)
      with nj show False by (simp add: set_top)
    qed
    ultimately have q: "(sc ! j, j) \<in> set (drop k L)"
      by blast
    have pos: "sorted_wrt (<) (map snd xs)"
      by (simp only: snd_xs sorted_wrt_upt)
    have "f p < f (sc ! j, j) \<or> (f p = f (sc ! j, j) \<and> snd p < snd (sc ! j, j))"
      using p(1) q unfolding L_def by (rule take_sort_key_stable [OF pos])
    then show ?thesis
      by (simp add: pi f_def) (metis)
  qed
qed

text \<open>
  Claim C6: for a text with more than 3 sentences the summary is made of the sentences
  at the selected indexes, joined in that order; there are exactly
  \<open>max(ceil(0.25 N), 3)\<close> selected indexes; they are strictly ascending; and the selection
  prefers higher combined scores and, among equal scores, earlier sentences: a sentence
  that is not selected has a lower score than every selected one, or the same score and
  a later position.
\<close>

theorem generateSummary_top_sentences:
  assumes "length (sentencesOf text) > 3"
  shows "generateSummary kts text
      = join ''. ''
          (map (\<lambda>i. sentencesOf text ! i)
             (topIndexes (summaryLength (length (sentencesOf text)))
                (combinedScores kts (sentencesOf text)))) @ ''.''
    \<and> length (topIndexes (summaryLength (length (sentencesOf text)))
                (combinedScores kts (sentencesOf text)))
        = max (nat \<lceil>of_nat (length (sentencesOf text)) * (1 / 4 :: rat)\<rceil>) 3
    \<and> sorted_wrt (<) (topIndexes (summaryLength (length (sentencesOf text)))
                (combinedScores kts (sentencesOf text)))
    \<and> (\<forall>i \<in> set (topIndexes (summaryLength (length (sentencesOf text)))
                (combinedScores kts (sentencesOf text))).
          i < length (sentencesOf text)
          \<and> (\<forall>j < length (sentencesOf text).
                j \<notin> set (topIndexes (summaryLength (length (sentencesOf text)))
                          (combinedScores kts (sentencesOf text))) \<longrightarrow>
                  combinedScores kts (sentencesOf text) ! j < combinedScores kts (sentencesOf text) ! i
                  \<or> (combinedScores kts (sentencesOf text) ! j
                        = combinedScores kts (sentencesOf text) ! i \<and> i < j)))"
proof -
  define S where "S = sentencesOf text"
  define sc where "sc = combinedScores kts S"
  define k where "k = summaryLength (length S)"
  have len: "length sc = length S"
    by (simp add: sc_def length_combinedScores)
  have n: "3 < length S"
    using assms by (simp add: S_def)
  have c1: "generateSummary kts text = join ''. '' (map (\<lambda>i. S ! i) (topIndexes k sc)) @ ''.''"
    using n by (simp add: generateSummary_def Let_def S_def sc_def k_def)
  have "k \<le> length S"
    unfolding k_def using n by (rule summaryLength_le)
  then have "length (topIndexes k sc) = k"
    by (simp add: topIndexes_props(1) len)
  then have c2: "length (topIndexes k sc) = max (nat \<lceil>of_nat (length S) * (1 / 4 :: rat)\<rceil>) 3"
    by (simp add: k_def summaryLength_def)
  have c3: "sorted_wrt (<) (topIndexes k sc)"
    by (rule topIndexes_props(2))
  have c4: "\<forall>i \<in> set (topIndexes k sc). i < length S
      \<and> (\<forall>j < length S. j \<notin> set (topIndexes k sc) \<longrightarrow>
            sc ! j < sc ! i \<or> (sc ! j = sc ! i \<and> i < j))"
    using topIndexes_props(3) [of _ k sc] topIndexes_props(4) [of _ k sc]
    unfolding len by blast
  from c1 c2 c3 c4 show ?thesis
    unfolding S_def sc_def k_def by (intro conjI)
qed

theorem generateSummary_top_sentences_witness:
  "length (sentencesOf ''a. b. c. alpha beta. d'') > 3
   \<and> generateSummary [''alpha'', ''beta'', ''alpha beta''] ''a. b. c. alpha beta. d''
       = ''a.  b.  alpha beta.''
   \<and> length (topIndexes (summaryLength 5)
        (combinedScores [''alpha'', ''beta'', ''alpha beta''] (sentencesOf ''a. b. c. alpha beta. d'')))
       = 3"
proof -
  have n: "length (sentencesOf ''a. b. c. alpha beta. d'') = 5"
    by code_simp
  have h: "length (sentencesOf ''a. b. c. alpha beta. d'') > 3"
    by (simp add: n)
  have top: "topIndexes (summaryLength 5)
        (combinedScores [''alpha'', ''beta'', ''alpha beta''] (sentencesOf ''a. b. c. alpha beta. d''))
      = [0, 1, 3]"
    by code_simp
  have j: "join ''. '' (map (\<lambda>i. sentencesOf ''a. b. c. alpha beta. d'' ! i) [0, 1, 3]) @ ''.''
      = ''a.  b.  alpha beta.''"
    by code_simp
  show ?thesis
    using generateSummary_top_sentences [OF h, of "[''alpha'', ''beta'', ''alpha beta'']"]
    unfolding n top j by simp
qed

section \<open>Key terms of a repeated word\<close>

lemma lowerChar_word:
  assumes "isWordChar c"
  shows "isWordChar (lowerChar c) \<and> \<not> isSpace (lowerChar c)"
proof -
  have "list_all (\<lambda>c. isWordChar (lowerChar c) \<and> \<not> isSpace (lowerChar c)) wordChars"
    by code_simp
  then show ?thesis
    using assms by (simp add: list_all_iff isWordChar_def)
qed

lemma lowerChar_space: "lowerChar CHR '' '' = CHR '' ''"
  by code_simp

lemma cleanText_append: "cleanText (a @ b) = cleanText a @ cleanText b"
  by (simp add: cleanText_def toLowerCase_def)

lemma cleanText_word:
  "\<forall>c \<in> set w. isWordChar c \<Longrightarrow> cleanText w = toLowerCase w"
  using lowerChar_word by (simp add: cleanText_def toLowerCase_def)

lemma cleanText_space: "cleanText '' '' = '' ''"
  by code_simp

lemma join_replicate:
  "join sep (replicate (Suc (Suc n)) w) = w @ sep @ join sep (replicate (Suc n) w)"
  by simp

lemma cleanText_join:
  assumes "\<forall>c \<in> set w. isWordChar c"
  shows "cleanText (join '' '' (replicate (Suc n) w)) = join '' '' (replicate (Suc n) (toLowerCase w))"
proof (induction n)
  case 0
  show ?case using assms by (simp add: cleanText_word)
next
  case (Suc n)
  show ?case
    unfolding join_replicate cleanText_append Suc cleanText_space cleanText_word [OF assms] ..
qed

lemma splitOn_prefix:
  "\<forall>c \<in> set l. \<not> P c \<Longrightarrow> splitOn P (l @ s) = (l @ hd (splitOn P s)) # tl (splitOn P s)"
proof (induction l)
  case Nil
  show ?case using splitOn_nonempty [of P s] by simp
next
  case (Cons a l)
  then show ?case by simp
qed

lemma splitOn_delim:
  "P d \<Longrightarrow> s \<noteq> [] \<Longrightarrow> \<not> P (hd s) \<Longrightarrow> splitOn P (d # s) = [] # splitOn P s"
  by simp

lemma join_replicate_hd:
  "l \<noteq> [] \<Longrightarrow> join sep (replicate (Suc n) l) \<noteq> [] \<and> hd (join sep (replicate (Suc n) l)) = hd l"
  by (cases n) simp_all

lemma splitOn_join:
  assumes "l \<noteq> []" and "\<forall>c \<in> set l. \<not> isSpace c"
  shows "splitOn isSpace (join '' '' (replicate (Suc n) l)) = replicate (Suc n) l"
proof (induction n)
  case 0
  show ?case using splitOn_prefix [OF assms(2), of "[]"] by simp
next
  case (Suc n)
  have sp: "isSpace CHR '' ''"
    by (simp add: isSpace_def)
  have nc: "\<not> isSpace (hd l)"
    using assms by simp
  have "splitOn isSpace (CHR '' '' # join '' '' (replicate (Suc n) l))
      = [] # splitOn isSpace (join '' '' (replicate (Suc n) l))"
    using join_replicate_hd [OF assms(1), of "'' ''" n] nc
    by (intro splitOn_delim [of isSpace "CHR '' ''", OF sp]) simp_all
  then show ?case
    unfolding join_replicate
    using splitOn_prefix [OF assms(2), of "'' '' @ join '' '' (replicate (Suc n) l)"] Suc
    by simp
qed

lemma wordsOf_repeated:
  assumes "\<forall>c \<in> set w. isWordChar c" and "w \<noteq> []"
  shows "wordsOf (join '' '' (replicate (Suc n) w)) = replicate (Suc n) (toLowerCase w)"
proof -
  have ne: "toLowerCase w \<noteq> []"
    using assms(2) by (simp add: toLowerCase_def)
  have ns: "\<forall>c \<in> set (toLowerCase w). \<not> isSpace c"
    using assms(1) lowerChar_word by (auto simp: toLowerCase_def)
  show ?thesis
    unfolding wordsOf_def cleanText_join [OF assms(1)] splitOn_join [OF ne ns]
    using ne by simp
qed

text \<open>Counting a word that is repeated.\<close>

lemma phrase_not_constructor: "a @ CHR '' '' # b \<noteq> ''constructor''"
proof
  assume e: "a @ CHR '' '' # b = ''constructor''"
  have "CHR '' '' \<in> set (a @ CHR '' '' # b)" by simp
  then have "CHR '' '' \<in> set ''constructor''" unfolding e .
  then show False by simp
qed

lemma bump_absent:
  "map_of counts k = None \<Longrightarrow> k \<noteq> ''constructor'' \<Longrightarrow> bump k d counts = objSet k (Number d) counts"
  by (simp add: bump_def)

lemma bump_present:
  "map_of counts k = Some (Number n) \<Longrightarrow> bump k d counts = objSet k (Number (n + d)) counts"
  by (simp add: bump_def)

lemma countWords_repeated_aux:
  assumes "l \<notin> set stopWords" and "length l > 3" and "l \<noteq> ''__proto__''"
  shows "foldl countWord [(l, Number m)] (replicate n l) = [(l, Number (m + n))]"
  using assms by (induction n arbitrary: m) (simp_all add: countWord_def bump_present)

lemma countWords_repeated:
  assumes "l \<notin> set stopWords" and "length l > 3" and "l \<noteq> ''__proto__''"
    and "l \<noteq> ''constructor''"
  shows "countWords (replicate (Suc n) l) = [(l, Number (Suc n))]"
  using countWords_repeated_aux [OF assms(1-3), of 1 n] assms
  by (simp add: countWords_def countWord_def bump_absent)

lemma phrase_keys_differ:
  "l @ '' '' @ l \<noteq> l @ '' '' @ l @ '' '' @ l"
  "l @ '' '' @ l \<noteq> l"
  "l @ '' '' @ l @ '' '' @ l \<noteq> l"
  "l \<noteq> l @ '' '' @ l"
  "l \<noteq> l @ '' '' @ l @ '' '' @ l"
  "l @ '' '' @ l @ '' '' @ l \<noteq> l @ '' '' @ l"
  by simp_all

lemma findPhrases_step:
  assumes "l \<notin> set stopWords" and "length l > 3"
  shows "findPhrases (l # l # l # rest) ph
     = findPhrases (l # l # rest) (bump (l @ '' '' @ l @ '' '' @ l) 3 (bump (l @ '' '' @ l) 1 ph))"
  using assms by (subst findPhrases.simps) (simp add: Let_def del: findPhrases.simps)

lemma findPhrases_last:
  assumes "l \<notin> set stopWords" and "length l > 3"
  shows "findPhrases [l, l] ph = bump (l @ '' '' @ l) 1 ph"
  using assms by (simp add: Let_def)

lemma bump_phrases:
  "bump (l @ '' '' @ l) 1
      [(l @ '' '' @ l, Number x), (l @ '' '' @ l @ '' '' @ l, Number y)]
     = [(l @ '' '' @ l, Number (x + 1)), (l @ '' '' @ l @ '' '' @ l, Number y)]"
  "bump (l @ '' '' @ l @ '' '' @ l) 3
      [(l @ '' '' @ l, Number x), (l @ '' '' @ l @ '' '' @ l, Number y)]
     = [(l @ '' '' @ l, Number x), (l @ '' '' @ l @ '' '' @ l, Number (y + 3))]"
  by (simp_all add: bump_present)

lemma bump_first_phrases:
  "bump (l @ '' '' @ l @ '' '' @ l) 3 (bump (l @ '' '' @ l) 1 [])
     = [(l @ '' '' @ l, Number 1), (l @ '' '' @ l @ '' '' @ l, Number 3)]"
proof -
  have "bump (l @ '' '' @ l) 1 [] = [(l @ '' '' @ l, Number 1)]"
    using phrase_not_constructor [of l l] by (simp add: bump_absent)
  moreover have "bump (l @ '' '' @ l @ '' '' @ l) 3 [(l @ '' '' @ l, Number 1)]
      = [(l @ '' '' @ l, Number 1), (l @ '' '' @ l @ '' '' @ l, Number 3)]"
    using phrase_not_constructor [of l "l @ '' '' @ l"] by (simp add: bump_absent)
  ultimately show ?thesis by simp
qed

lemma findPhrases_repeated_aux:
  assumes "l \<notin> set stopWords" and "length l > 3"
  shows "findPhrases (l # l # replicate n l)
       [(l @ '' '' @ l, Number x), (l @ '' '' @ l @ '' '' @ l, Number y)]
     = [(l @ '' '' @ l, Number (x + n + 1)), (l @ '' '' @ l @ '' '' @ l, Number (y + 3 * n))]"
proof (induction n arbitrary: x y)
  case 0
  show ?case
    unfolding replicate.simps findPhrases_last [OF assms] bump_phrases by simp
next
  case (Suc n)
  show ?case
    unfolding replicate.simps findPhrases_step [OF assms] bump_phrases Suc.IH by simp
qed

lemma findPhrases_repeated:
  assumes "l \<notin> set stopWords" and "length l > 3"
  shows "findPhrases (replicate (Suc (Suc (Suc n))) l) []
     = [(l @ '' '' @ l, Number (n + 2)), (l @ '' '' @ l @ '' '' @ l, Number (3 * n + 3))]"
  unfolding replicate.simps findPhrases_step [OF assms] bump_first_phrases
    findPhrases_repeated_aux [OF assms]
  by simp

lemma space_not_arrayIndex:
  assumes "CHR '' '' \<in> set k"
  shows "\<not> isArrayIndex k"
proof -
  have "\<not> isDigit CHR '' ''"
    by (simp add: isDigit_def)
  with assms have "\<not> list_all isDigit k"
    unfolding list_all_iff by blast
  then show ?thesis
    by (simp only: isArrayIndex_def simp_thms)
qed

text \<open>
  Claim C1, as stated: for a word repeated 21 times the key terms are that word and
  nothing else. It fails: the bigram and the trigram of the word are counted too, and the
  trigram, weighted by 3, comes first.
\<close>

theorem extractKeyTerms_repeated_word_counterexample:
  "extractKeyTerms
     ''exam exam exam exam exam exam exam exam exam exam exam exam exam exam exam exam exam exam exam exam exam''
     = [''exam exam exam'', ''exam'', ''exam exam'']
   \<and> [''exam exam exam'', ''exam'', ''exam exam''] \<noteq> [''exam'']"
  by code_simp

text \<open>
  Claim C1, amended: for a word made of word characters, longer than 3 characters, whose
  lower-case form is no stop word and none of the inherited property names
  \<open>constructor\<close> and \<open>__proto__\<close>, the key terms of the text that repeats the word 21
  times, separated by single spaces, are exactly three, in this order: the trigram
  (count 57), the word (count 21) and the bigram (count 20), all in lower case.
\<close>

theorem extractKeyTerms_repeated_word:
  assumes "\<forall>c \<in> set w. isWordChar c"
    and "length w > 3"
    and "toLowerCase w \<notin> set stopWords"
    and "toLowerCase w \<notin> set inheritedKeys"
  shows "extractKeyTerms (join '' '' (replicate 21 w))
     = [toLowerCase w @ '' '' @ toLowerCase w @ '' '' @ toLowerCase w,
        toLowerCase w,
        toLowerCase w @ '' '' @ toLowerCase w]"
proof -
  let ?l = "toLowerCase w"
  let ?b = "?l @ '' '' @ ?l"
  let ?t = "?l @ '' '' @ ?l @ '' '' @ ?l"
  have len: "length ?l > 3"
    using assms(2) by (simp add: toLowerCase_def)
  have np: "?l \<noteq> ''__proto__''" and nc: "?l \<noteq> ''constructor''"
    using assms(4) by (auto simp: inheritedKeys_def)
  have ne: "w \<noteq> []"
    using assms(2) by auto
  have n21: "(21::nat) = Suc 20" and n21': "(21::nat) = Suc (Suc (Suc 18))"
    by simp_all
  have ws: "wordsOf (join '' '' (replicate 21 w)) = replicate 21 ?l"
    unfolding n21 by (rule wordsOf_repeated [OF assms(1) ne])
  have wc: "countWords (replicate 21 ?l) = [(?l, Number 21)]"
    unfolding n21 using countWords_repeated [OF assms(3) len np nc, of 20] by simp
  have ph: "findPhrases (replicate 21 ?l) [] = [(?b, Number 20), (?t, Number 57)]"
    unfolding n21' using findPhrases_repeated [OF assms(3) len, of 18] by simp
  have nb: "\<not> isArrayIndex ?b" and nt: "\<not> isArrayIndex ?t"
    by (rule space_not_arrayIndex, simp)+
  have e1: "objEntries [(?l, Number 21)] = [(?l, Number 21)]"
    by (simp add: objEntries_def)
  have e2: "objEntries [(?b, Number 20), (?t, Number 57)] = [(?b, Number 20), (?t, Number 57)]"
    using nb nt by (simp add: objEntries_def)
  have sp: "spread [(?l, Number 21)] [(?b, Number 20), (?t, Number 57)]
      = [(?l, Number 21), (?b, Number 20), (?t, Number 57)]"
    unfolding spread_def e1 e2 by simp
  have e3: "objEntries [(?l, Number 21), (?b, Number 20), (?t, Number 57)]
      = [(?l, Number 21), (?b, Number 20), (?t, Number 57)]"
    using nb nt by (cases "isArrayIndex ?l") (simp_all add: objEntries_def)
  have so: "sortByCountDesc [(?l, Number 21), (?b, Number 20), (?t, Number 57)]
      = [(?t, Number 57), (?l, Number 21), (?b, Number 20)]"
    by (simp add: sortByCountDesc_def sortBy_def byCountDesc_def)
  show ?thesis
    unfolding extractKeyTerms_def Let_def ws wc ph sp e3 so by simp
qed

theorem extractKeyTerms_repeated_word_witness:
  "extractKeyTerms (join '' '' (replicate 21 ''Test'')) = [''test test test'', ''test'', ''test test'']"
proof -
  have a: "\<forall>c \<in> set ''Test''. isWordChar c"
    by (simp add: isWordChar_def wordChars_def)
  have b: "length ''Test'' > 3"
    by simp
  have l: "toLowerCase ''Test'' = ''test''"
    by code_simp
  have c: "toLowerCase ''Test'' \<notin> set stopWords"
    unfolding l by (simp add: stopWords_def)
  have d: "toLowerCase ''Test'' \<notin> set inheritedKeys"
    unfolding l by (simp add: inheritedKeys_def)
  show ?thesis
    using extractKeyTerms_repeated_word [OF a b c d] unfolding l by simp
qed

end
